theory Spec2Isabelle
  imports Main "HOL-Library.Multiset"
begin

section \<open>Data model\<close>

text \<open>
  The sequence CRDT of the editor: class \<open>DocumentCRDT\<close> with its interfaces
  \<open>Position\<close>, \<open>CharacterMetadata\<close> and \<open>Character\<close>.

  Numbers are the integers the allocator computes with (digits, clocks and differences
  stay far below \<open>2^53\<close>, where a JavaScript number is exact), so they are \<open>int\<close>.
  The field \<open>id\<close> is \<open>idC\<close> and \<open>value\<close> is \<open>valueC\<close> here, since HOL has
  \<open>id\<close> and Isabelle has the command \<open>value\<close>; the document's clock is \<open>clockD\<close>,
  the position's is \<open>clock\<close>, and \<open>insert\<close> is \<open>insertC\<close>.

  Characters are values: every document owns the characters in its map. That is the
  situation of two replicas that exchange their state through \<open>toJSON\<close> and
  \<open>fromJSON\<close>; two \<open>DocumentCRDT\<close> objects of one process that were merged
  directly would share the adopted \<open>Character\<close> objects.

  The code reads a flag of a stored character for its truth value only
  (\<open>!char.metadata.deleted\<close> in \<open>getText\<close>), so \<open>bold\<close>, \<open>italic\<close> and
  \<open>deleted\<close> are \<open>bool\<close>: a flag that holds \<open>undefined\<close>, which \<open>updateMetadata\<close>
  can store, is \<open>False\<close>.
\<close>

record Position =
  index :: "int list"
  site :: string
  clock :: int

record CharacterMetadata =
  bold :: bool
  italic :: bool
  deleted :: bool

record Character =
  idC :: string
  valueC :: string
  position :: Position
  metadata :: CharacterMetadata

text \<open>
  \<open>Partial<CharacterMetadata>\<close>: every field may be absent, present with the value
  \<open>undefined\<close> (the type admits \<open>{deleted: undefined}\<close>), or present with a boolean.
\<close>

datatype optionalFlag = Absent | Undefined | Given bool

record PartialMetadata =
  boldP :: optionalFlag
  italicP :: optionalFlag
  deletedP :: optionalFlag

text \<open>
  \<open>characters\<close> is a JavaScript \<open>Map\<close>: its keys are unique and it iterates in the
  order in which the keys were first set. It is an association list in that order.
\<close>

type_synonym CharacterMap = "(string \<times> Character) list"

record DocumentCRDT =
  characters :: CharacterMap
  siteId :: string
  clockD :: int

definition BASE :: int where
  "BASE = 32"

definition BOUNDARY :: int where
  "BOUNDARY = 10"

text \<open>The constructor: an empty map, the site's identifier, clock 0.\<close>

definition newDocument :: "string \<Rightarrow> DocumentCRDT" where
  "newDocument s = \<lparr>characters = [], siteId = s, clockD = 0\<rparr>"

subsection \<open>The map's operations\<close>

text \<open>\<open>Map.get\<close> and \<open>Map.has\<close>.\<close>

definition mapGet :: "CharacterMap \<Rightarrow> string \<Rightarrow> Character option" where
  "mapGet m k = map_of m k"

definition mapHas :: "CharacterMap \<Rightarrow> string \<Rightarrow> bool" where
  "mapHas m k = (k \<in> set (map fst m))"

text \<open>
  \<open>Map.set\<close>: a key already present keeps its place in the iteration order and gets the
  new value, a new key goes to the end.
\<close>

fun mapSet :: "CharacterMap \<Rightarrow> string \<Rightarrow> Character \<Rightarrow> CharacterMap" where
  "mapSet [] k v = [(k, v)]"
| "mapSet ((k', v') # m) k v = (if k' = k then (k, v) # m else (k', v') # mapSet m k v)"

text \<open>The invariant of the representation: a \<open>Map\<close> holds every key once.\<close>

definition uniqueKeys :: "DocumentCRDT \<Rightarrow> bool" where
  "uniqueKeys d = distinct (map fst (characters d))"

section \<open>The comparator\<close>

text \<open>
  The \<open>for\<close> loop of \<open>comparePositions\<close>: over the shared length, the first pair of
  different digits returns their difference; \<open>None\<close> when the loop ends without
  returning.
\<close>

fun compareDigits :: "int list \<Rightarrow> int list \<Rightarrow> int option" where
  "compareDigits (x # xs) (y # ys) = (if x \<noteq> y then Some (x - y) else compareDigits xs ys)"
| "compareDigits _ _ = None"

text \<open>
  \<open>String.prototype.localeCompare\<close> is the host's collation, not code of the
  repository: it is the parameter \<open>lc\<close> (negative, zero or positive).
\<close>

type_synonym localeCompare = "string \<Rightarrow> string \<Rightarrow> int"

definition comparePositions :: "localeCompare \<Rightarrow> Position \<Rightarrow> Position \<Rightarrow> int" where
  "comparePositions lc pos1 pos2 =
     (case compareDigits (index pos1) (index pos2) of
        Some d \<Rightarrow> d
      | None \<Rightarrow>
          if length (index pos1) \<noteq> length (index pos2)
          then int (length (index pos1)) - int (length (index pos2))
          else if site pos1 \<noteq> site pos2 then lc (site pos1) (site pos2)
          else clock pos1 - clock pos2)"

text \<open>
  What ECMA-262 requires of \<open>localeCompare\<close>: a consistent comparator. It is 0 on a
  string and itself, its sign turns round with its arguments, and "negative" and "zero"
  are transitive. It may be 0 on two different strings (the standard demands that for
  canonically equivalent ones).
\<close>

definition consistent :: "localeCompare \<Rightarrow> bool" where
  "consistent lc =
     ((\<forall>a. lc a a = 0) \<and>
      (\<forall>a b. (lc a b < 0) = (0 < lc b a)) \<and>
      (\<forall>a b c. lc a b < 0 \<and> lc b c < 0 \<longrightarrow> lc a c < 0) \<and>
      (\<forall>a b c. lc a b = 0 \<and> lc b c = 0 \<longrightarrow> lc a c = 0))"

text \<open>
  A collation that is 0 on identical strings only. The host's is not one: the theorems
  on the claims assume \<open>consistent\<close>, and reach this stronger property through
  \<open>tieBreak\<close> below where the site identifiers at hand allow it.
\<close>

definition lexical :: "localeCompare \<Rightarrow> bool" where
  "lexical lc =
     ((\<forall>a b. (lc a b = 0) = (a = b)) \<and>
      (\<forall>a b. (lc a b < 0) = (0 < lc b a)) \<and>
      (\<forall>a b c. lc a b < 0 \<and> lc b c < 0 \<longrightarrow> lc a c < 0))"

text \<open>
  A collation to run the model with: code units compared left to right, a proper prefix
  first.
\<close>

fun codeUnitCompare :: localeCompare where
  "codeUnitCompare [] [] = 0"
| "codeUnitCompare [] (y # ys) = - 1"
| "codeUnitCompare (x # xs) [] = 1"
| "codeUnitCompare (x # xs) (y # ys) =
     (if (of_char x :: nat) < of_char y then - 1
      else if (of_char y :: nat) < of_char x then 1
      else codeUnitCompare xs ys)"

text \<open>
  A collation that, like the host's for control characters, ignores the code unit
  U+0001: \<open>"a".localeCompare("a\u0001")\<close> is 0.
\<close>

definition ignoringCompare :: localeCompare where
  "ignoringCompare s t =
     codeUnitCompare (filter (\<lambda>c. c \<noteq> CHR 0x01) s) (filter (\<lambda>c. c \<noteq> CHR 0x01) t)"

text \<open>
  A collation with its ties broken by code units; it agrees with the collation wherever
  that is not 0.
\<close>

definition tieBreak :: "localeCompare \<Rightarrow> localeCompare" where
  "tieBreak lc s t = (if lc s t \<noteq> 0 then lc s t else codeUnitCompare s t)"

section \<open>The allocator\<close>

datatype error = NaNDigit | MalformedJSON

text \<open>
  \<open>generatePositionBefore\<close> reads \<open>index[0]\<close>. On an empty digit sequence that is
  \<open>undefined\<close>, the test \<open>undefined <= BOUNDARY\<close> is false and the result is
  \<open>[undefined - BOUNDARY]\<close>, the digit \<open>NaN\<close>, which is no integer: \<open>None\<close> here.
\<close>

fun generatePositionBefore :: "int list \<Rightarrow> int list option" where
  "generatePositionBefore [] = None"
| "generatePositionBefore (d # ds) =
     (if d \<le> BOUNDARY then Some [d - 1] else Some [d - BOUNDARY])"

definition generatePositionAfter :: "int list \<Rightarrow> int list" where
  "generatePositionAfter ix = ix @ [BASE]"

text \<open>\<open>++this.clock\<close>: the new clock value and the document that holds it.\<close>

definition incrementClock :: "DocumentCRDT \<Rightarrow> int \<times> DocumentCRDT" where
  "incrementClock d = (clockD d + 1, d\<lparr>clockD := clockD d + 1\<rparr>)"

text \<open>
  The \<open>while\<close> loop of \<open>generatePositionBetween\<close>: the number \<open>i\<close> of leading digits
  the two sequences share. The loop pushes exactly these digits onto \<open>head\<close>.
\<close>

fun sharedPrefix :: "int list \<Rightarrow> int list \<Rightarrow> nat" where
  "sharedPrefix (x # xs) (y # ys) = (if x \<noteq> y then 0 else Suc (sharedPrefix xs ys))"
| "sharedPrefix _ _ = 0"

text \<open>The position stamped with the site and a fresh clock tick.\<close>

definition stamp :: "DocumentCRDT \<Rightarrow> int list \<Rightarrow> Position \<times> DocumentCRDT" where
  "stamp d ix =
     (let (c, d') = incrementClock d in (\<lparr>index = ix, site = siteId d, clock = c\<rparr>, d'))"

function generatePositionBetween ::
  "DocumentCRDT \<Rightarrow> Position option \<Rightarrow> Position option \<Rightarrow> int list
     \<Rightarrow> error + (Position \<times> DocumentCRDT)" where
  "generatePositionBetween d None None newPos = Inr (stamp d [BASE])"
| "generatePositionBetween d None (Some next) newPos =
     (case generatePositionBefore (index next) of
        None \<Rightarrow> Inl NaNDigit
      | Some ix \<Rightarrow> Inr (stamp d ix))"
| "generatePositionBetween d (Some prev) None newPos =
     Inr (stamp d (generatePositionAfter (index prev)))"
| "generatePositionBetween d (Some prev) (Some next) newPos =
     (let prevIndex = index prev;
          nextIndex = index next;
          i = sharedPrefix prevIndex nextIndex;
          head = newPos @ take i prevIndex;
          prevDigit = (if i < length prevIndex then prevIndex ! i else 0);
          nextDigit = (if i < length nextIndex then nextIndex ! i else BASE);
          difference = nextDigit - prevDigit
      in if difference > 1
         then Inr (stamp d (head @ [prevDigit + difference div 2]))
         else generatePositionBetween d
                (Some (prev\<lparr>index := drop (i + 1) prevIndex\<rparr>))
                (Some (next\<lparr>index := drop (i + 1) nextIndex\<rparr>))
                (head @ [prevDigit]))"
  by pat_completeness auto
termination
proof (relation "measure (\<lambda>(d, p, n, h).
         (case p of None \<Rightarrow> 0 | Some a \<Rightarrow> length (index a)) +
         (case n of None \<Rightarrow> 0 | Some b \<Rightarrow> length (index b)))", goal_cases)
  case 1
  show ?case by simp
next
  case (2 d prev "next" newPos prevIndex nextIndex i head prevDigit nextDigit difference)
  have "i < length prevIndex \<or> i < length nextIndex"
  proof (rule ccontr)
    assume "\<not> (i < length prevIndex \<or> i < length nextIndex)"
    with 2 show False by (simp add: BASE_def)
  qed
  with 2 show ?case by auto
qed

text \<open>The recursive equation is unfolded by hand where it is needed.\<close>

declare generatePositionBetween.simps(4) [simp del]

section \<open>The character store\<close>

text \<open>
  \<open>insert\<close>. The identifier comes from \<open>uuidv4()\<close>, a random source outside the
  repository: it is the argument \<open>uuid\<close>. \<open>prevId ? ... : null\<close> takes \<open>null\<close> and the
  empty string for "no neighbour"; an identifier the map does not hold gives
  \<open>undefined\<close>, and \<open>prev?.position || null\<close> turns that into \<open>null\<close> as well.
\<close>

definition resolve :: "CharacterMap \<Rightarrow> string option \<Rightarrow> Position option" where
  "resolve m cid =
     (case cid of
        None \<Rightarrow> None
      | Some k \<Rightarrow> if k = [] then None else map_option position (mapGet m k))"

text \<open>\<open>metadata.bold || false\<close>: an absent or undefined field is \<open>false\<close>.\<close>

definition orFalse :: "optionalFlag \<Rightarrow> bool" where
  "orFalse b = (case b of Absent \<Rightarrow> False | Undefined \<Rightarrow> False | Given v \<Rightarrow> v)"

definition insertC ::
  "DocumentCRDT \<Rightarrow> string \<Rightarrow> string \<Rightarrow> string option \<Rightarrow> string option \<Rightarrow> PartialMetadata
     \<Rightarrow> error + (Character \<times> DocumentCRDT)" where
  "insertC d uuid v prevId nextId md =
     (case generatePositionBetween d
             (resolve (characters d) prevId) (resolve (characters d) nextId) [] of
        Inl e \<Rightarrow> Inl e
      | Inr (pos, d') \<Rightarrow>
          let char = \<lparr>idC = uuid, valueC = v, position = pos,
                      metadata = \<lparr>bold = orFalse (boldP md), italic = orFalse (italicP md),
                                  deleted = orFalse (deletedP md)\<rparr>\<rparr>
          in Inr (char, d'\<lparr>characters := mapSet (characters d') (idC char) char\<rparr>))"

text \<open>\<open>delete\<close>: the flag of the character under the key is set, an unknown key does nothing.\<close>

definition delete :: "DocumentCRDT \<Rightarrow> string \<Rightarrow> DocumentCRDT" where
  "delete d charId =
     (case mapGet (characters d) charId of
        None \<Rightarrow> d
      | Some char \<Rightarrow>
          d\<lparr>characters :=
              mapSet (characters d) charId (char\<lparr>metadata := (metadata char)\<lparr>deleted := True\<rparr>\<rparr>)\<rparr>)"

text \<open>
  \<open>{ ...char.metadata, ...metadata }\<close>: every field the argument has replaces the old
  one, also a field whose value is \<open>undefined\<close>; the flag then holds \<open>undefined\<close>
  and reads as false.
\<close>

definition spreadFlag :: "bool \<Rightarrow> optionalFlag \<Rightarrow> bool" where
  "spreadFlag old new = (case new of Absent \<Rightarrow> old | Undefined \<Rightarrow> False | Given v \<Rightarrow> v)"

definition spread :: "CharacterMetadata \<Rightarrow> PartialMetadata \<Rightarrow> CharacterMetadata" where
  "spread old md =
     \<lparr>bold = spreadFlag (bold old) (boldP md),
      italic = spreadFlag (italic old) (italicP md),
      deleted = spreadFlag (deleted old) (deletedP md)\<rparr>"

definition updateMetadata :: "DocumentCRDT \<Rightarrow> string \<Rightarrow> PartialMetadata \<Rightarrow> DocumentCRDT" where
  "updateMetadata d charId md =
     (case mapGet (characters d) charId of
        None \<Rightarrow> d
      | Some char \<Rightarrow>
          d\<lparr>characters :=
              mapSet (characters d) charId (char\<lparr>metadata := spread (metadata char) md\<rparr>)\<rparr>)"

section \<open>The merger\<close>

text \<open>
  One round of the \<open>for\<close> loop of \<open>merge\<close>, on the receiver's map: an unknown key is
  adopted, a known one is replaced when the incoming position compares greater.
\<close>

definition mergeStep :: "localeCompare \<Rightarrow> string \<times> Character \<Rightarrow> CharacterMap \<Rightarrow> CharacterMap" where
  "mergeStep lc e m =
     (case e of (k, char) \<Rightarrow>
        if \<not> mapHas m k then mapSet m k char
        else (case mapGet m k of
                None \<Rightarrow> m
              | Some existing \<Rightarrow>
                  if comparePositions lc (position char) (position existing) > 0
                  then mapSet m k char else m))"

text \<open>\<open>this.merge(other)\<close>: the receiver \<open>this\<close> comes first.\<close>

definition merge :: "localeCompare \<Rightarrow> DocumentCRDT \<Rightarrow> DocumentCRDT \<Rightarrow> DocumentCRDT" where
  "merge lc this other =
     this\<lparr>characters := fold (mergeStep lc) (characters other) (characters this)\<rparr>"

section \<open>Rendering\<close>

text \<open>
  \<open>Array.prototype.sort\<close> with a comparator is the host's; it is stable, and with a
  consistent comparator its result is the stable ordering. That contract is modelled by
  insertion from the right: an element goes before the first one it does not compare
  greater than.
\<close>

fun insertSorted :: "('a \<Rightarrow> 'a \<Rightarrow> int) \<Rightarrow> 'a \<Rightarrow> 'a list \<Rightarrow> 'a list" where
  "insertSorted cmp x [] = [x]"
| "insertSorted cmp x (y # ys) =
     (if cmp x y \<le> 0 then x # y # ys else y # insertSorted cmp x ys)"

definition arraySort :: "('a \<Rightarrow> 'a \<Rightarrow> int) \<Rightarrow> 'a list \<Rightarrow> 'a list" where
  "arraySort cmp xs = foldr (insertSorted cmp) xs []"

definition byPosition :: "localeCompare \<Rightarrow> Character \<Rightarrow> Character \<Rightarrow> int" where
  "byPosition lc a b = comparePositions lc (position a) (position b)"

definition getText :: "localeCompare \<Rightarrow> DocumentCRDT \<Rightarrow> Character list" where
  "getText lc d =
     arraySort (byPosition lc)
       (filter (\<lambda>char. \<not> deleted (metadata char)) (map snd (characters d)))"

section \<open>Serialisation\<close>

text \<open>
  \<open>JSON.stringify\<close> and \<open>JSON.parse\<close> are the host's. The model stops at the JSON
  value that the first writes and the second reads back: objects with their keys in
  creation order, arrays, strings, integers and booleans.
\<close>

datatype json =
    JNull
  | JBool bool
  | JNumber int
  | JString string
  | JArray "json list"
  | JObject "(string \<times> json) list"

definition positionToJSON :: "Position \<Rightarrow> json" where
  "positionToJSON p =
     JObject [(''index'', JArray (map JNumber (index p))),
              (''site'', JString (site p)),
              (''clock'', JNumber (clock p))]"

definition metadataToJSON :: "CharacterMetadata \<Rightarrow> json" where
  "metadataToJSON m =
     JObject [(''bold'', JBool (bold m)),
              (''italic'', JBool (italic m)),
              (''deleted'', JBool (deleted m))]"

definition characterToJSON :: "Character \<Rightarrow> json" where
  "characterToJSON c =
     JObject [(''id'', JString (idC c)),
              (''value'', JString (valueC c)),
              (''position'', positionToJSON (position c)),
              (''metadata'', metadataToJSON (metadata c))]"

text \<open>\<open>Array.from(this.characters.entries())\<close>: the pairs \<open>[key, character]\<close> in map order.\<close>

definition toJSON :: "DocumentCRDT \<Rightarrow> json" where
  "toJSON d = JArray (map (\<lambda>(k, c). JArray [JString k, characterToJSON c]) (characters d))"

text \<open>
  Reading a value back as the interface it is used as. The source does not check the
  shape (\<open>new Map(JSON.parse(json))\<close> takes whatever the text holds); a value that is no
  \<open>Character\<close> has no place in the typed model and is \<open>None\<close>.
\<close>

fun numberOfJSON :: "json \<Rightarrow> int option" where
  "numberOfJSON (JNumber n) = Some n"
| "numberOfJSON _ = None"

fun stringOfJSON :: "json \<Rightarrow> string option" where
  "stringOfJSON (JString s) = Some s"
| "stringOfJSON _ = None"

fun boolOfJSON :: "json \<Rightarrow> bool option" where
  "boolOfJSON (JBool b) = Some b"
| "boolOfJSON _ = None"

fun allSome :: "'a option list \<Rightarrow> 'a list option" where
  "allSome [] = Some []"
| "allSome (None # xs) = None"
| "allSome (Some x # xs) = map_option ((#) x) (allSome xs)"

fun field :: "json \<Rightarrow> string \<Rightarrow> json option" where
  "field (JObject kvs) k = map_of kvs k"
| "field _ k = None"

definition positionOfJSON :: "json \<Rightarrow> Position option" where
  "positionOfJSON j =
     (case (field j ''index'', Option.bind (field j ''site'') stringOfJSON,
            Option.bind (field j ''clock'') numberOfJSON) of
        (Some (JArray ds), Some s, Some c) \<Rightarrow>
          map_option (\<lambda>ix. \<lparr>index = ix, site = s, clock = c\<rparr>) (allSome (map numberOfJSON ds))
      | _ \<Rightarrow> None)"

definition metadataOfJSON :: "json \<Rightarrow> CharacterMetadata option" where
  "metadataOfJSON j =
     (case (Option.bind (field j ''bold'') boolOfJSON,
            Option.bind (field j ''italic'') boolOfJSON,
            Option.bind (field j ''deleted'') boolOfJSON) of
        (Some b, Some i, Some x) \<Rightarrow> Some \<lparr>bold = b, italic = i, deleted = x\<rparr>
      | _ \<Rightarrow> None)"

definition characterOfJSON :: "json \<Rightarrow> Character option" where
  "characterOfJSON j =
     (case (Option.bind (field j ''id'') stringOfJSON,
            Option.bind (field j ''value'') stringOfJSON,
            Option.bind (field j ''position'') positionOfJSON,
            Option.bind (field j ''metadata'') metadataOfJSON) of
        (Some i, Some v, Some p, Some m) \<Rightarrow>
          Some \<lparr>idC = i, valueC = v, position = p, metadata = m\<rparr>
      | _ \<Rightarrow> None)"

fun entryOfJSON :: "json \<Rightarrow> (string \<times> Character) option" where
  "entryOfJSON (JArray [JString k, c]) = map_option (Pair k) (characterOfJSON c)"
| "entryOfJSON _ = None"

text \<open>\<open>new Map(entries)\<close> sets the pairs in order, a repeated key keeping its first place.\<close>

definition newMap :: "(string \<times> Character) list \<Rightarrow> CharacterMap" where
  "newMap es = fold (\<lambda>(k, c) m. mapSet m k c) es []"

text \<open>\<open>fromJSON\<close>: a new document of the given site, clock 0, with the map read back.\<close>

definition fromJSON :: "json \<Rightarrow> string \<Rightarrow> error + DocumentCRDT" where
  "fromJSON j s =
     (case j of
        JArray es \<Rightarrow>
          (case allSome (map entryOfJSON es) of
             None \<Rightarrow> Inl MalformedJSON
           | Some entries \<Rightarrow> Inr ((newDocument s)\<lparr>characters := newMap entries\<rparr>))
      | _ \<Rightarrow> Inl MalformedJSON)"

section \<open>The order as the specification words it\<close>

text \<open>
  The comparator's steps 1 and 2: the digit sequences are compared element by element,
  the first differing digit decides, and a strict prefix comes before the longer
  sequence.
\<close>

fun digitsLess :: "int list \<Rightarrow> int list \<Rightarrow> bool" where
  "digitsLess [] [] = False"
| "digitsLess [] (y # ys) = True"
| "digitsLess (x # xs) [] = False"
| "digitsLess (x # xs) (y # ys) = (x < y \<or> (x = y \<and> digitsLess xs ys))"

text \<open>Steps 3 and 4: with equal digit sequences the sites decide, then the clocks.\<close>

definition specLess :: "localeCompare \<Rightarrow> Position \<Rightarrow> Position \<Rightarrow> bool" where
  "specLess lc a b =
     (digitsLess (index a) (index b) \<or>
      (index a = index b \<and>
       (lc (site a) (site b) < 0 \<or> (site a = site b \<and> clock a < clock b))))"

text \<open>
  The part of \<open>comparePositions\<close> that looks at the digits only: the loop's result, or
  the difference of the lengths.
\<close>

definition cmpIndex :: "int list \<Rightarrow> int list \<Rightarrow> int" where
  "cmpIndex P Q =
     (case compareDigits P Q of
        Some d \<Rightarrow> d
      | None \<Rightarrow> int (length P) - int (length Q))"

section \<open>The allocator's digits\<close>

text \<open>
  The digit sequence that \<open>generatePositionBetween\<close> builds for two present
  neighbours, digit by digit: a shared digit is copied; where the digits part (a missing
  digit of \<open>prev\<close> counts as 0, one of \<open>next\<close> as \<open>BASE\<close>) the midpoint ends the
  sequence if the gap exceeds 1, otherwise \<open>prev\<close>'s digit is copied and the search goes
  on behind it. \<open>generatePositionBetween_digits\<close> below shows that this is what the
  source's loop and recursion compute.
\<close>

fun midIndex :: "int list \<Rightarrow> int list \<Rightarrow> int list" where
  "midIndex [] [] = [BASE div 2]"
| "midIndex [] (y # ys) = (if y > 1 then [y div 2] else 0 # midIndex [] ys)"
| "midIndex (x # xs) [] =
     (if BASE - x > 1 then [x + (BASE - x) div 2] else x # midIndex xs [])"
| "midIndex (x # xs) (y # ys) =
     (if x = y then x # midIndex xs ys
      else if y - x > 1 then [x + (y - x) div 2]
      else x # midIndex xs ys)"

text \<open>
  The pairs of digit sequences between which the allocator finds room: the first
  sequence comes before the second, and if it is a prefix of the second, the digits of
  the second that follow are not all zero and the first of them that is not zero is
  positive.
\<close>

fun dense :: "int list \<Rightarrow> int list \<Rightarrow> bool" where
  "dense [] [] = False"
| "dense [] (y # ys) = (0 < y \<or> (y = 0 \<and> dense [] ys))"
| "dense (x # xs) [] = False"
| "dense (x # xs) (y # ys) = (x < y \<or> (x = y \<and> dense xs ys))"

text \<open>
  The digit sequences the allocator makes: at least one digit, no negative digit behind
  the first, and, when there is more than one digit, a positive last digit.
\<close>

definition allocated :: "int list \<Rightarrow> bool" where
  "allocated ds = (ds \<noteq> [] \<and> (\<forall>x \<in> set (tl ds). 0 \<le> x) \<and> (tl ds \<noteq> [] \<longrightarrow> 0 < last ds))"

text \<open>
  Repeated bisection: a position is allocated between the two boundaries, and the next
  round goes on between one boundary and the position just made (\<open>True\<close>: the left
  half, \<open>False\<close>: the right half). The result lists the positions made, in order.
\<close>

fun bisect :: "bool list \<Rightarrow> DocumentCRDT \<Rightarrow> Position \<Rightarrow> Position \<Rightarrow> error + Position list" where
  "bisect [] d p q = Inr []"
| "bisect (left # cs) d p q =
     (case generatePositionBetween d (Some p) (Some q) [] of
        Inl e \<Rightarrow> Inl e
      | Inr (r, d') \<Rightarrow>
          (case (if left then bisect cs d' p r else bisect cs d' r q) of
             Inl e \<Rightarrow> Inl e
           | Inr rs \<Rightarrow> Inr (r # rs)))"

section \<open>Example documents\<close>

text \<open>Concrete documents and positions at which the theorems below are run.\<close>

definition charX :: Character where
  "charX = \<lparr>idC = ''x'', valueC = ''a'',
             position = \<lparr>index = [32], site = ''A'', clock = 1\<rparr>,
             metadata = \<lparr>bold = False, italic = False, deleted = False\<rparr>\<rparr>"

definition docX :: DocumentCRDT where
  "docX = \<lparr>characters = [(''x'', charX)], siteId = ''A'', clockD = 1\<rparr>"

definition posA1 :: Position where
  "posA1 = \<lparr>index = [32], site = ''A'', clock = 1\<rparr>"

definition posA2 :: Position where
  "posA2 = \<lparr>index = [32], site = ''A'', clock = 2\<rparr>"


definition posIgnA :: Position where
  "posIgnA = \<lparr>index = [32], site = ''a'', clock = 1\<rparr>"

definition posIgnB :: Position where
  "posIgnB = \<lparr>index = [32], site = [CHR ''a'', CHR 0x01], clock = 2\<rparr>"

definition charP :: Character where
  "charP = \<lparr>idC = ''p'', valueC = ''p'', position = posIgnA,
             metadata = \<lparr>bold = False, italic = False, deleted = False\<rparr>\<rparr>"

definition charQ :: Character where
  "charQ = \<lparr>idC = ''q'', valueC = ''q'', position = posIgnB,
             metadata = \<lparr>bold = False, italic = False, deleted = False\<rparr>\<rparr>"

definition docP :: DocumentCRDT where
  "docP = \<lparr>characters = [(''p'', charP)], siteId = ''a'', clockD = 1\<rparr>"

definition docQ :: DocumentCRDT where
  "docQ = \<lparr>characters = [(''q'', charQ)], siteId = [CHR ''a'', CHR 0x01], clockD = 2\<rparr>"

definition posLong :: Position where
  "posLong = \<lparr>index = [32, 16], site = ''A'', clock = 3\<rparr>"

text \<open>
  What one identifier resolves to when two maps are joined: the receiver's character
  unless the incoming one has the greater position.
\<close>

fun pick :: "localeCompare \<Rightarrow> Character option \<Rightarrow> Character option \<Rightarrow> Character option" where
  "pick lc None r = r"
| "pick lc (Some l) None = Some l"
| "pick lc (Some l) (Some r) =
     (if comparePositions lc (position r) (position l) > 0 then Some r else Some l)"

text \<open>
  \<open>docAA\<close> is the document of site A after two calls \<open>insert(value)\<close> without
  neighbours: both characters get the digits \<open>[BASE]\<close>, with clocks 1 and 2.
\<close>

definition charY :: Character where
  "charY = \<lparr>idC = ''y'', valueC = ''b'', position = posA2,
             metadata = \<lparr>bold = False, italic = False, deleted = False\<rparr>\<rparr>"

definition docAA :: DocumentCRDT where
  "docAA = \<lparr>characters = [(''x'', charX), (''y'', charY)], siteId = ''A'', clockD = 2\<rparr>"

definition posQ :: Position where
  "posQ = \<lparr>index = [33], site = ''B'', clock = 1\<rparr>"

definition posOne :: Position where
  "posOne = \<lparr>index = [1], site = ''A'', clock = 1\<rparr>"

text \<open>
  \<open>docY\<close> is a second replica that holds the character of \<open>docX\<close> and has deleted
  it; \<open>docZ\<close> is a third that holds it, live, under the same identifier at a greater
  position, and \<open>docW\<close> holds that one deleted.
\<close>

definition charXdel :: Character where
  "charXdel = charX\<lparr>metadata := \<lparr>bold = False, italic = False, deleted = True\<rparr>\<rparr>"

definition docY :: DocumentCRDT where
  "docY = \<lparr>characters = [(''x'', charXdel)], siteId = ''B'', clockD = 0\<rparr>"

definition charXfar :: Character where
  "charXfar = charX\<lparr>position := posQ\<rparr>"

definition docZ :: DocumentCRDT where
  "docZ = \<lparr>characters = [(''x'', charXfar)], siteId = ''C'', clockD = 0\<rparr>"

definition charXfarDel :: Character where
  "charXfarDel = charXfar\<lparr>metadata := \<lparr>bold = False, italic = False, deleted = True\<rparr>\<rparr>"

definition docW :: DocumentCRDT where
  "docW = \<lparr>characters = [(''x'', charXfarDel)], siteId = ''C'', clockD = 0\<rparr>"

definition noMetadata :: PartialMetadata where
  "noMetadata = \<lparr>boldP = Absent, italicP = Absent, deletedP = Absent\<rparr>"

definition undefinedDeleted :: PartialMetadata where
  "undefinedDeleted = \<lparr>boldP = Absent, italicP = Absent, deletedP = Undefined\<rparr>"

definition undelete :: PartialMetadata where
  "undelete = \<lparr>boldP = Absent, italicP = Absent, deletedP = Given False\<rparr>"

text \<open>
  \<open>docXU\<close> is \<open>docX\<close> after \<open>insert('z', 'x', 'nope', {italic: true})\<close> with the
  identifier \<open>u\<close> drawn for the new character.
\<close>

definition italicOnly :: PartialMetadata where
  "italicOnly = \<lparr>boldP = Absent, italicP = Given True, deletedP = Absent\<rparr>"

definition charU :: Character where
  "charU = \<lparr>idC = ''u'', valueC = ''z'',
             position = \<lparr>index = [32, 32], site = ''A'', clock = 2\<rparr>,
             metadata = \<lparr>bold = False, italic = True, deleted = False\<rparr>\<rparr>"

definition docXU :: DocumentCRDT where
  "docXU = \<lparr>characters = [(''x'', charX), (''u'', charU)], siteId = ''A'', clockD = 2\<rparr>"

text \<open>
  Two stores in which a position belongs to one character only: any two characters of
  the two stores with the same position are the same character.
\<close>

definition onePerPosition :: "DocumentCRDT \<Rightarrow> DocumentCRDT \<Rightarrow> bool" where
  "onePerPosition A B =
     (\<forall>c1 \<in> set (map snd (characters A @ characters B)).
      \<forall>c2 \<in> set (map snd (characters A @ characters B)).
        position c1 = position c2 \<longrightarrow> c1 = c2)"

text \<open>
  A set of characters whose site identifiers collate as equal only when they are the
  same string, and stores all of whose characters form such a set.
\<close>

definition separated :: "localeCompare \<Rightarrow> Character set \<Rightarrow> bool" where
  "separated lc S =
     (\<forall>c1 \<in> S. \<forall>c2 \<in> S.
        lc (site (position c1)) (site (position c2)) = 0 \<longrightarrow>
        site (position c1) = site (position c2))"

definition sitesSeparated :: "localeCompare \<Rightarrow> DocumentCRDT list \<Rightarrow> bool" where
  "sitesSeparated lc ds = separated lc (\<Union>d \<in> set ds. snd ` set (characters d))"

section \<open>Facts about the map\<close>

lemma map_of_mapSet: "map_of (mapSet m k v) = (map_of m)(k \<mapsto> v)"
  by (induction m) (auto simp: fun_eq_iff)

lemma keys_mapSet_present: "k \<in> set (map fst m) \<Longrightarrow> map fst (mapSet m k v) = map fst m"
  by (induction m) force+

lemma keys_mapSet_absent: "k \<notin> set (map fst m) \<Longrightarrow> map fst (mapSet m k v) = map fst m @ [k]"
  by (induction m) auto

lemma keys_mapSet:
  "map fst (mapSet m k v) = (if k \<in> set (map fst m) then map fst m else map fst m @ [k])"
  using keys_mapSet_present keys_mapSet_absent by simp

lemma mapSet_absent: "k \<notin> set (map fst m) \<Longrightarrow> mapSet m k v = m @ [(k, v)]"
  by (induction m) auto

lemma mapSet_same: "map_of m k = Some v \<Longrightarrow> mapSet m k v = m"
  by (induction m) (auto split: if_splits)

lemma mapSet_twice: "mapSet (mapSet m k v) k w = mapSet m k w"
  by (induction m) auto

lemma mapGet_None_iff: "mapGet m k = None \<longleftrightarrow> \<not> mapHas m k"
  by (simp add: mapGet_def mapHas_def map_of_eq_None_iff)

lemma mapGet_mapSet: "mapGet (mapSet m k v) k' = (if k' = k then Some v else mapGet m k')"
  by (simp add: mapGet_def map_of_mapSet)

lemma distinct_keys_mapSet:
  "distinct (map fst m) \<Longrightarrow> distinct (map fst (mapSet m k v))"
  by (simp add: keys_mapSet)

section \<open>Unknown identifiers\<close>

text \<open>
  C9. For an identifier the store does not hold, \<open>delete\<close> and \<open>updateMetadata\<close> return
  the document as it was, without an error; and for every identifier, deleting twice
  gives the same document as deleting once.
\<close>

theorem unknown_id_noop_delete_idempotent:
  "(\<not> mapHas (characters d) k \<longrightarrow> delete d k = d \<and> updateMetadata d k md = d) \<and>
   delete (delete d k) k = delete d k"
proof -
  have "delete (delete d k) k = delete d k"
  proof (cases "mapGet (characters d) k")
    case None
    then show ?thesis by (simp add: delete_def)
  next
    case (Some c)
    then show ?thesis
      by (simp add: delete_def mapGet_mapSet mapSet_twice)
  qed
  moreover have "\<not> mapHas (characters d) k \<longrightarrow> delete d k = d \<and> updateMetadata d k md = d"
    by (simp add: delete_def updateMetadata_def mapGet_None_iff [symmetric])
  ultimately show ?thesis by simp
qed

theorem unknown_id_noop_witness:
  "\<not> mapHas (characters docX) ''y'' \<and> delete docX ''y'' = docX \<and>
   updateMetadata docX ''y'' \<lparr>boldP = Given True, italicP = Absent, deletedP = Absent\<rparr> = docX \<and>
   delete (delete docX ''x'') ''x'' = delete docX ''x'' \<and> delete docX ''x'' \<noteq> docX"
proof -
  have h: "\<not> mapHas (characters docX) ''y''" by (simp add: docX_def mapHas_def)
  have "delete docX ''x'' \<noteq> docX" by (simp add: docX_def charX_def delete_def mapGet_def)
  with h unknown_id_noop_delete_idempotent [of docX "''y''" "\<lparr>boldP = Given True, italicP = Absent, deletedP = Absent\<rparr>"]
    unknown_id_noop_delete_idempotent [of docX "''x''"]
  show ?thesis by simp
qed

section \<open>The order of the comparator\<close>

lemma cmpIndex_Cons:
  "cmpIndex (x # xs) (y # ys) = (if x \<noteq> y then x - y else cmpIndex xs ys)"
  by (simp add: cmpIndex_def split: option.splits)

lemma cmpIndex_Nil: "cmpIndex [] Q = - int (length Q)" "cmpIndex P [] = int (length P)"
  by (cases Q; cases P; simp add: cmpIndex_def)+

lemma cmpIndex_neg: "cmpIndex P Q < 0 \<longleftrightarrow> digitsLess P Q"
  by (induction P Q rule: digitsLess.induct) (auto simp: cmpIndex_Cons cmpIndex_Nil)

lemma cmpIndex_pos: "0 < cmpIndex P Q \<longleftrightarrow> digitsLess Q P"
  by (induction P Q rule: digitsLess.induct) (auto simp: cmpIndex_Cons cmpIndex_Nil)

lemma cmpIndex_zero: "cmpIndex P Q = 0 \<longleftrightarrow> P = Q"
  by (induction P Q rule: digitsLess.induct) (auto simp: cmpIndex_Cons cmpIndex_Nil)

lemma digitsLess_irrefl: "\<not> digitsLess P P"
  by (induction P) auto

lemma digitsLess_asym: "digitsLess P Q \<Longrightarrow> \<not> digitsLess Q P"
  by (induction P Q rule: digitsLess.induct) auto

lemma digitsLess_trans: "digitsLess P Q \<Longrightarrow> digitsLess Q R \<Longrightarrow> digitsLess P R"
proof (induction P Q arbitrary: R rule: digitsLess.induct)
  case 1
  then show ?case by simp
next
  case (2 y ys)
  then show ?case by (cases R) simp_all
next
  case (3 x xs)
  then show ?case by simp
next
  case (4 x xs y ys)
  then show ?case by (cases R) auto
qed

lemma digitsLess_total: "P \<noteq> Q \<Longrightarrow> digitsLess P Q \<or> digitsLess Q P"
  by (induction P Q rule: digitsLess.induct) auto

lemma comparePositions_cmpIndex:
  "comparePositions lc a b =
     (if cmpIndex (index a) (index b) \<noteq> 0 then cmpIndex (index a) (index b)
      else if site a \<noteq> site b then lc (site a) (site b)
      else clock a - clock b)"
proof (cases "compareDigits (index a) (index b)")
  case None
  then show ?thesis by (auto simp: comparePositions_def cmpIndex_def)
next
  case (Some d)
  have "\<And>P Q d. compareDigits P Q = Some d \<Longrightarrow> d \<noteq> 0"
  proof -
    fix P Q d show "compareDigits P Q = Some d \<Longrightarrow> d \<noteq> 0"
      by (induction P Q rule: compareDigits.induct) (auto split: if_splits)
  qed
  with Some show ?thesis by (auto simp: comparePositions_def cmpIndex_def)
qed

lemma consistent_refl: "consistent lc \<Longrightarrow> lc s s = 0"
  unfolding consistent_def by blast

lemma consistent_pos: "consistent lc \<Longrightarrow> 0 < lc s t \<longleftrightarrow> lc t s < 0"
  unfolding consistent_def by blast

lemma consistent_irrefl: "consistent lc \<Longrightarrow> \<not> lc s s < 0"
  using consistent_refl [of lc s] by simp

lemma consistent_asym: "consistent lc \<Longrightarrow> lc s t < 0 \<Longrightarrow> \<not> lc t s < 0"
  using consistent_pos [of lc t s] by simp

lemma consistent_trans: "consistent lc \<Longrightarrow> lc s t < 0 \<Longrightarrow> lc t u < 0 \<Longrightarrow> lc s u < 0"
  unfolding consistent_def by blast

lemma consistent_zero_sym:
  assumes "consistent lc" "lc s t = 0"
  shows "lc t s = 0"
  using assms(2) consistent_pos [OF assms(1), of s t] consistent_pos [OF assms(1), of t s]
  by linarith

lemma consistent_zero_trans: "consistent lc \<Longrightarrow> lc s t = 0 \<Longrightarrow> lc t u = 0 \<Longrightarrow> lc s u = 0"
  unfolding consistent_def by blast

lemma lexical_consistent:
  assumes "lexical lc"
  shows "consistent lc"
proof -
  from assms have z: "\<And>a b. (lc a b = 0) = (a = b)"
    and s: "\<And>a b. (lc a b < 0) = (0 < lc b a)"
    and t: "\<And>a b c. lc a b < 0 \<and> lc b c < 0 \<longrightarrow> lc a c < 0"
    unfolding lexical_def by blast+
  have "\<forall>a. lc a a = 0" by (simp add: z)
  moreover have "\<forall>a b c. lc a b = 0 \<and> lc b c = 0 \<longrightarrow> lc a c = 0" by (simp add: z)
  ultimately show ?thesis unfolding consistent_def using s t by blast
qed

lemma lexical_zero: "lexical lc \<Longrightarrow> lc s t = 0 \<longleftrightarrow> s = t"
  unfolding lexical_def by blast

lemma lexical_pos: "lexical lc \<Longrightarrow> 0 < lc s t \<longleftrightarrow> lc t s < 0"
  unfolding lexical_def by blast

lemma lexical_irrefl: "lexical lc \<Longrightarrow> \<not> lc s s < 0"
  using lexical_zero [of lc s s] by simp

lemma lexical_asym: "lexical lc \<Longrightarrow> lc s t < 0 \<Longrightarrow> \<not> lc t s < 0"
  using lexical_pos [of lc t s] by simp

lemma lexical_trans: "lexical lc \<Longrightarrow> lc s t < 0 \<Longrightarrow> lc t u < 0 \<Longrightarrow> lc s u < 0"
  unfolding lexical_def by blast

lemma lexical_cases: "lexical lc \<Longrightarrow> lc s t < 0 \<or> s = t \<or> lc t s < 0"
  using lexical_zero [of lc s t] lexical_pos [of lc s t] by linarith

lemma Position_eq_iff:
  "(a :: Position) = b \<longleftrightarrow> index a = index b \<and> site a = site b \<and> clock a = clock b"
  by (cases a; cases b) simp

lemma comparePositions_neg_consistent:
  assumes "consistent lc"
  shows "comparePositions lc a b < 0 \<longleftrightarrow> specLess lc a b"
proof (cases "index a = index b")
  case False
  then show ?thesis
    by (simp add: comparePositions_cmpIndex specLess_def cmpIndex_neg cmpIndex_zero)
next
  case True
  show ?thesis
  proof (cases "site a = site b")
    case False
    with True show ?thesis
      by (simp add: comparePositions_cmpIndex specLess_def cmpIndex_zero digitsLess_irrefl)
  next
    case same: True
    with True consistent_irrefl [OF assms, of "site b"] show ?thesis
      by (simp add: comparePositions_cmpIndex specLess_def cmpIndex_zero digitsLess_irrefl)
  qed
qed

lemma comparePositions_neg:
  assumes "lexical lc"
  shows "comparePositions lc a b < 0 \<longleftrightarrow> specLess lc a b"
  using lexical_consistent [OF assms] by (rule comparePositions_neg_consistent)

lemma comparePositions_zero:
  assumes "lexical lc"
  shows "comparePositions lc a b = 0 \<longleftrightarrow> a = b"
proof (cases "index a = index b")
  case False
  then show ?thesis
    by (simp add: comparePositions_cmpIndex cmpIndex_zero Position_eq_iff)
next
  case True
  show ?thesis
  proof (cases "site a = site b")
    case False
    with True lexical_zero [OF assms, of "site a" "site b"] show ?thesis
      by (simp add: comparePositions_cmpIndex cmpIndex_zero Position_eq_iff)
  next
    case same: True
    with True show ?thesis
      by (simp add: comparePositions_cmpIndex cmpIndex_zero Position_eq_iff)
  qed
qed

lemma specLess_irrefl_consistent: "consistent lc \<Longrightarrow> \<not> specLess lc a a"
  by (simp add: specLess_def digitsLess_irrefl consistent_irrefl)

lemma specLess_irrefl: "lexical lc \<Longrightarrow> \<not> specLess lc a a"
  using lexical_consistent by (rule specLess_irrefl_consistent)

lemma specLess_asym_consistent:
  assumes "consistent lc" "specLess lc a b" shows "\<not> specLess lc b a"
proof
  assume r: "specLess lc b a"
  show False
  proof (cases "index a = index b")
    case False
    with assms(2) r have "digitsLess (index a) (index b)" "digitsLess (index b) (index a)"
      by (auto simp: specLess_def)
    then show False using digitsLess_asym by blast
  next
    case True
    with assms(2) r digitsLess_irrefl [of "index b"]
    have f: "lc (site a) (site b) < 0 \<or> (site a = site b \<and> clock a < clock b)"
      and g: "lc (site b) (site a) < 0 \<or> (site b = site a \<and> clock b < clock a)"
      by (simp_all add: specLess_def)
    show False
    proof (cases "site a = site b")
      case False
      with f g consistent_asym [OF assms(1), of "site a" "site b"] show False by simp
    next
      case same: True
      with f g consistent_irrefl [OF assms(1), of "site b"] show False by simp
    qed
  qed
qed

lemma specLess_asym:
  assumes "lexical lc" "specLess lc a b" shows "\<not> specLess lc b a"
  using lexical_consistent [OF assms(1)] assms(2) by (rule specLess_asym_consistent)

lemma specLess_trans_consistent:
  assumes "consistent lc" "specLess lc a b" "specLess lc b c" shows "specLess lc a c"
proof -
  consider (d1) "digitsLess (index a) (index b)"
    | (e1) "index a = index b" "lc (site a) (site b) < 0"
    | (c1) "index a = index b" "site a = site b" "clock a < clock b"
    using assms(2) unfolding specLess_def by blast
  then show ?thesis
  proof cases
    case d1
    consider (d2) "digitsLess (index b) (index c)" | (e2) "index b = index c"
      using assms(3) unfolding specLess_def by blast
    then show ?thesis
    proof cases
      case d2
      with d1 digitsLess_trans show ?thesis unfolding specLess_def by blast
    next
      case e2
      with d1 show ?thesis unfolding specLess_def by simp
    qed
  next
    case e1
    consider (d2) "digitsLess (index b) (index c)"
      | (e2) "index b = index c" "lc (site b) (site c) < 0"
      | (c2) "index b = index c" "site b = site c"
      using assms(3) unfolding specLess_def by blast
    then show ?thesis
    proof cases
      case d2
      with e1 show ?thesis unfolding specLess_def by simp
    next
      case e2
      with e1 consistent_trans [OF assms(1), of "site a" "site b" "site c"]
      show ?thesis unfolding specLess_def by simp
    next
      case c2
      with e1 show ?thesis unfolding specLess_def by simp
    qed
  next
    case c1
    consider (d2) "digitsLess (index b) (index c)"
      | (e2) "index b = index c" "lc (site b) (site c) < 0"
      | (c2) "index b = index c" "site b = site c" "clock b < clock c"
      using assms(3) unfolding specLess_def by blast
    then show ?thesis
    proof cases
      case d2
      with c1 show ?thesis unfolding specLess_def by simp
    next
      case e2
      with c1 show ?thesis unfolding specLess_def by simp
    next
      case c2
      with c1 show ?thesis unfolding specLess_def by simp
    qed
  qed
qed

lemma specLess_trans:
  assumes "lexical lc" "specLess lc a b" "specLess lc b c" shows "specLess lc a c"
  using lexical_consistent [OF assms(1)] assms(2,3) by (rule specLess_trans_consistent)

lemma specLess_total:
  assumes "lexical lc" "a \<noteq> b" shows "specLess lc a b \<or> specLess lc b a"
proof (cases "index a = index b")
  case False
  with digitsLess_total [of "index a" "index b"] show ?thesis
    unfolding specLess_def by blast
next
  case True
  show ?thesis
  proof (cases "site a = site b")
    case False
    with True lexical_cases [OF assms(1), of "site a" "site b"] show ?thesis
      unfolding specLess_def by auto
  next
    case same: True
    with True assms(2) have "clock a \<noteq> clock b" by (simp add: Position_eq_iff)
    with True same show ?thesis unfolding specLess_def by auto
  qed
qed

lemma comparePositions_pos:
  assumes "lexical lc"
  shows "0 < comparePositions lc a b \<longleftrightarrow> specLess lc b a"
proof -
  have "0 < comparePositions lc a b \<longleftrightarrow>
        \<not> comparePositions lc a b < 0 \<and> comparePositions lc a b \<noteq> 0" by linarith
  also have "\<dots> \<longleftrightarrow> \<not> specLess lc a b \<and> a \<noteq> b"
    by (simp add: comparePositions_neg [OF assms] comparePositions_zero [OF assms])
  also have "\<dots> \<longleftrightarrow> specLess lc b a"
    using specLess_total [OF assms, of a b] specLess_asym [OF assms, of b a]
      specLess_irrefl [OF assms, of a] by blast
  finally show ?thesis .
qed

lemma codeUnitCompare_zero: "codeUnitCompare s t = 0 \<longleftrightarrow> s = t"
  by (induction s t rule: codeUnitCompare.induct) auto

lemma codeUnitCompare_sym: "codeUnitCompare s t < 0 \<longleftrightarrow> 0 < codeUnitCompare t s"
  by (induction s t rule: codeUnitCompare.induct) auto

lemma codeUnitCompare_Cons_neg:
  "codeUnitCompare (x # xs) (y # ys) < 0 \<longleftrightarrow>
     (of_char x :: nat) < of_char y \<or>
     ((of_char x :: nat) = of_char y \<and> codeUnitCompare xs ys < 0)"
  by auto

lemma codeUnitCompare_trans:
  "codeUnitCompare s t < 0 \<Longrightarrow> codeUnitCompare t u < 0 \<Longrightarrow> codeUnitCompare s u < 0"
proof (induction s t arbitrary: u rule: codeUnitCompare.induct)
  case 1
  then show ?case by simp
next
  case (2 y ys)
  then show ?case by (cases u) simp_all
next
  case (3 x xs)
  then show ?case by simp
next
  case (4 x xs y ys)
  show ?case
  proof (cases u)
    case Nil
    with "4.prems" show ?thesis by simp
  next
    case (Cons z zs)
    from "4.prems"(1) have xy: "(of_char x :: nat) < of_char y \<or>
        ((of_char x :: nat) = of_char y \<and> codeUnitCompare xs ys < 0)"
      by (simp only: codeUnitCompare_Cons_neg)
    from "4.prems"(2) Cons have yz: "(of_char y :: nat) < of_char z \<or>
        ((of_char y :: nat) = of_char z \<and> codeUnitCompare ys zs < 0)"
      by (simp only: codeUnitCompare_Cons_neg)
    show ?thesis
    proof (cases "(of_char x :: nat) < of_char z")
      case True
      then show ?thesis unfolding Cons codeUnitCompare_Cons_neg by simp
    next
      case False
      with xy yz have e: "(of_char x :: nat) = of_char y" "(of_char y :: nat) = of_char z"
        and l: "codeUnitCompare xs ys < 0" "codeUnitCompare ys zs < 0"
        by linarith+
      from e have "\<not> (of_char x :: nat) < of_char y" "\<not> (of_char y :: nat) < of_char x"
        by simp_all
      with "4.IH" l have "codeUnitCompare xs zs < 0" by blast
      with e show ?thesis unfolding Cons codeUnitCompare_Cons_neg by simp
    qed
  qed
qed

lemma lexical_codeUnitCompare: "lexical codeUnitCompare"
  unfolding lexical_def
  using codeUnitCompare_zero codeUnitCompare_sym codeUnitCompare_trans by blast



lemma consistent_ignoringCompare: "consistent ignoringCompare"
proof -
  let ?f = "filter (\<lambda>c. c \<noteq> CHR 0x01)"
  have "\<forall>a. ignoringCompare a a = 0"
    by (simp add: ignoringCompare_def codeUnitCompare_zero)
  moreover have "\<forall>a b. (ignoringCompare a b < 0) = (0 < ignoringCompare b a)"
    using codeUnitCompare_sym by (simp add: ignoringCompare_def)
  moreover have "\<forall>a b c. ignoringCompare a b < 0 \<and> ignoringCompare b c < 0
      \<longrightarrow> ignoringCompare a c < 0"
    unfolding ignoringCompare_def using codeUnitCompare_trans by blast
  moreover have "\<forall>a b c. ignoringCompare a b = 0 \<and> ignoringCompare b c = 0
      \<longrightarrow> ignoringCompare a c = 0"
    by (simp add: ignoringCompare_def codeUnitCompare_zero)
  ultimately show ?thesis unfolding consistent_def by blast
qed




section \<open>Facts about merge\<close>

lemma comparePositions_same: "position a = position b \<Longrightarrow> comparePositions lc (position a) (position b) = 0"
  by (simp add: comparePositions_cmpIndex cmpIndex_zero)

lemma map_of_mergeStep:
  "map_of (mergeStep lc (k, c) m) = (map_of m)(k := pick lc (map_of m k) (Some c))"
proof (cases "map_of m k")
  case None
  then have "\<not> mapHas m k" by (simp add: mapGet_None_iff [symmetric] mapGet_def)
  with None show ?thesis by (simp add: mergeStep_def map_of_mapSet)
next
  case (Some e)
  then have h: "mapHas m k" using mapGet_None_iff [of m k] by (simp add: mapGet_def)
  show ?thesis
  proof (cases "comparePositions lc (position c) (position e) > 0")
    case True
    with Some h show ?thesis by (simp add: mergeStep_def mapGet_def map_of_mapSet)
  next
    case False
    with Some h show ?thesis by (auto simp: mergeStep_def mapGet_def fun_eq_iff)
  qed
qed

lemma keys_mergeStep:
  "map fst (mergeStep lc (k, c) m) =
     (if k \<in> set (map fst m) then map fst m else map fst m @ [k])"
proof (cases "mapHas m k")
  case False
  then show ?thesis by (simp add: mergeStep_def keys_mapSet mapHas_def)
next
  case True
  then have k: "k \<in> set (map fst m)" by (simp add: mapHas_def)
  then have "map fst (mapSet m k c) = map fst m" by (rule keys_mapSet_present)
  with True k show ?thesis
    by (simp add: mergeStep_def split: option.splits)
qed

lemma pick_None_right: "pick lc x None = x"
  by (cases x) simp_all

lemma map_of_fold_mergeStep:
  "distinct (map fst B) \<Longrightarrow>
     map_of (fold (mergeStep lc) B A) k = pick lc (map_of A k) (map_of B k)"
proof (induction B arbitrary: A)
  case Nil
  then show ?case by (simp add: pick_None_right)
next
  case (Cons e B)
  obtain k' c where e: "e = (k', c)" by (cases e)
  from Cons.prems e have d: "distinct (map fst B)" and n: "k' \<notin> set (map fst B)" by simp_all
  have "map_of (fold (mergeStep lc) (e # B) A) k =
        pick lc (map_of (mergeStep lc (k', c) A) k) (map_of B k)"
    using Cons.IH [OF d] e by simp
  also have "\<dots> = pick lc (map_of A k) (map_of (e # B) k)"
  proof (cases "k = k'")
    case True
    from n have "map_of B k' = None" by (simp add: map_of_eq_None_iff)
    with True e show ?thesis by (simp add: map_of_mergeStep pick_None_right)
  next
    case False
    with e show ?thesis by (simp add: map_of_mergeStep)
  qed
  finally show ?case .
qed

lemma keys_fold_mergeStep:
  "distinct (map fst B) \<Longrightarrow>
     map fst (fold (mergeStep lc) B A) =
       map fst A @ filter (\<lambda>k. k \<notin> set (map fst A)) (map fst B)"
proof (induction B arbitrary: A)
  case Nil
  then show ?case by simp
next
  case (Cons e B)
  obtain k' c where e: "e = (k', c)" by (cases e)
  from Cons.prems e have d: "distinct (map fst B)" and n: "k' \<notin> set (map fst B)" by simp_all
  let ?A' = "mergeStep lc (k', c) A"
  have step: "map fst (fold (mergeStep lc) (e # B) A) =
        map fst ?A' @ filter (\<lambda>k. k \<notin> set (map fst ?A')) (map fst B)"
    using Cons.IH [OF d] e by simp
  show ?case
  proof (cases "k' \<in> set (map fst A)")
    case True
    with step e show ?thesis by (simp add: keys_mergeStep)
  next
    case False
    have "filter (\<lambda>k. k \<notin> set (map fst A) \<and> k \<noteq> k') (map fst B) =
          filter (\<lambda>k. k \<notin> set (map fst A)) (map fst B)"
      using n by (intro filter_cong) auto
    with False step e show ?thesis by (simp add: keys_mergeStep conj_commute)
  qed
qed

lemma distinct_fold_mergeStep:
  "distinct (map fst A) \<Longrightarrow> distinct (map fst B) \<Longrightarrow>
     distinct (map fst (fold (mergeStep lc) B A))"
  by (auto simp: keys_fold_mergeStep)

lemma uniqueKeys_merge: "uniqueKeys A \<Longrightarrow> uniqueKeys B \<Longrightarrow> uniqueKeys (merge lc A B)"
  by (simp add: uniqueKeys_def merge_def distinct_fold_mergeStep)

lemma mapGet_merge:
  "uniqueKeys B \<Longrightarrow>
     mapGet (characters (merge lc A B)) k =
       pick lc (mapGet (characters A) k) (mapGet (characters B) k)"
  by (simp add: uniqueKeys_def merge_def mapGet_def map_of_fold_mergeStep)

lemma keys_merge:
  "uniqueKeys B \<Longrightarrow>
     map fst (characters (merge lc A B)) =
       map fst (characters A) @
       filter (\<lambda>k. k \<notin> set (map fst (characters A))) (map fst (characters B))"
  by (simp add: uniqueKeys_def merge_def keys_fold_mergeStep)

section \<open>Facts about the allocator\<close>

lemma stamp_eq:
  "stamp d ix = (\<lparr>index = ix, site = siteId d, clock = clockD d + 1\<rparr>, d\<lparr>clockD := clockD d + 1\<rparr>)"
  by (simp add: stamp_def incrementClock_def)

lemma midIndex_unfold:
  "midIndex P Q =
     (let i = sharedPrefix P Q;
          prevDigit = (if i < length P then P ! i else 0);
          nextDigit = (if i < length Q then Q ! i else BASE);
          difference = nextDigit - prevDigit
      in if difference > 1 then take i P @ [prevDigit + difference div 2]
         else take i P @ [prevDigit] @ midIndex (drop (i + 1) P) (drop (i + 1) Q))"
proof (induction P Q rule: midIndex.induct)
  case 1
  show ?case by (simp add: BASE_def)
next
  case (2 y ys)
  show ?case by (simp add: Let_def)
next
  case (3 x xs)
  show ?case by (simp add: Let_def)
next
  case (4 x xs y ys)
  show ?case
  proof (cases "x = y")
    case True
    with 4 show ?thesis by (simp add: Let_def)
  next
    case False
    then show ?thesis by (simp add: Let_def)
  qed
qed

lemma generatePositionBetween_digits:
  "generatePositionBetween d (Some prev) (Some next) newPos =
     Inr (stamp d (newPos @ midIndex (index prev) (index next)))"
proof (induction d "Some prev" "Some next" newPos arbitrary: prev "next"
    rule: generatePositionBetween.induct)
  case (4 d prev "next" newPos)
  let ?i = "sharedPrefix (index prev) (index next)"
  let ?pd = "if ?i < length (index prev) then index prev ! ?i else 0"
  let ?nd = "if ?i < length (index next) then index next ! ?i else BASE"
  show ?case
  proof (cases "?nd - ?pd > 1")
    case True
    then show ?thesis
      by (subst generatePositionBetween.simps, subst midIndex_unfold) (simp add: Let_def)
  next
    case False
    have "generatePositionBetween d
            (Some (prev\<lparr>index := drop (?i + 1) (index prev)\<rparr>))
            (Some (next\<lparr>index := drop (?i + 1) (index next)\<rparr>))
            ((newPos @ take ?i (index prev)) @ [?pd]) =
          Inr (stamp d (((newPos @ take ?i (index prev)) @ [?pd]) @
                 midIndex (index (prev\<lparr>index := drop (?i + 1) (index prev)\<rparr>))
                          (index (next\<lparr>index := drop (?i + 1) (index next)\<rparr>))))"
      using False by (intro "4.hyps") (simp_all add: Let_def)
    with False show ?thesis
      by (subst generatePositionBetween.simps, subst midIndex_unfold) (simp add: Let_def)
  qed
qed

lemma generatePositionBetween_result:
  assumes "generatePositionBetween d prev next newPos = Inr (pos, d')"
  shows "d' = d\<lparr>clockD := clockD d + 1\<rparr> \<and> site pos = siteId d \<and> clock pos = clockD d + 1"
proof (cases prev)
  case None
  show ?thesis
  proof (cases "next")
    case n: None
    with None assms show ?thesis by (auto simp: stamp_eq)
  next
    case (Some q)
    with None assms show ?thesis by (auto simp: stamp_eq split: option.splits)
  qed
next
  case (Some p)
  show ?thesis
  proof (cases "next")
    case None
    with Some assms show ?thesis by (auto simp: stamp_eq)
  next
    case s: (Some q)
    with Some assms have "stamp d (newPos @ midIndex (index p) (index q)) = (pos, d')"
      by (simp add: generatePositionBetween_digits)
    then show ?thesis by (auto simp: stamp_eq)
  qed
qed

lemma dense_digitsLess: "dense P Q \<Longrightarrow> digitsLess P Q"
proof (induction P Q rule: dense.induct)
  case 1
  then show ?case by simp
next
  case (2 y ys)
  show ?case by simp
next
  case (3 x xs)
  then show ?case by simp
next
  case (4 x xs y ys)
  then show ?case by auto
qed

lemma half_pos: "1 < (n :: int) \<Longrightarrow> 0 < n div 2"
  by arith

lemma half_less: "1 < (n :: int) \<Longrightarrow> n div 2 < n"
  by arith

lemma dense_midIndex_left: "dense P (midIndex P Q)"
proof (induction P Q rule: midIndex.induct)
  case 1
  show ?case by (simp add: BASE_def)
next
  case (2 y ys)
  then show ?case by (cases "y > 1") (simp_all add: half_pos)
next
  case (3 x xs)
  then show ?case by (cases "BASE - x > 1") (simp_all add: half_pos)
next
  case (4 x xs y ys)
  show ?case
  proof (cases "x = y")
    case True
    with 4 show ?thesis by simp
  next
    case False
    with 4 show ?thesis by (cases "y - x > 1") (simp_all add: half_pos)
  qed
qed

lemma dense_midIndex_right: "dense P Q \<Longrightarrow> dense (midIndex P Q) Q"
proof (induction P Q rule: midIndex.induct)
  case 1
  then show ?case by simp
next
  case (2 y ys)
  show ?case
  proof (cases "y > 1")
    case True
    then show ?thesis by (simp add: half_less)
  next
    case False
    with 2 show ?thesis by auto
  qed
next
  case (3 x xs)
  then show ?case by simp
next
  case (4 x xs y ys)
  show ?case
  proof (cases "x = y")
    case True
    with 4 show ?thesis by simp
  next
    case False
    with "4.prems" have xy: "x < y" by simp
    show ?thesis
    proof (cases "y - x > 1")
      case True
      with half_less [of "y - x"] have "x + (y - x) div 2 < y" by linarith
      with True False show ?thesis by simp
    next
      case small: False
      with xy False show ?thesis by simp
    qed
  qed
qed

lemma digitsLess_comparePositions:
  "digitsLess (index a) (index b) \<Longrightarrow> comparePositions lc a b < 0"
proof -
  assume "digitsLess (index a) (index b)"
  then have "cmpIndex (index a) (index b) < 0" by (simp add: cmpIndex_neg)
  then show ?thesis by (simp add: comparePositions_cmpIndex)
qed

lemma dense_comparePositions: "dense (index a) (index b) \<Longrightarrow> comparePositions lc a b < 0"
  by (simp add: digitsLess_comparePositions dense_digitsLess)

lemma between_dense:
  assumes "dense (index p) (index q)"
  shows "\<exists>r. generatePositionBetween d (Some p) (Some q) [] = Inr (r, d\<lparr>clockD := clockD d + 1\<rparr>) \<and>
             dense (index p) (index r) \<and> dense (index r) (index q)"
proof -
  let ?r = "\<lparr>index = midIndex (index p) (index q), site = siteId d, clock = clockD d + 1\<rparr>"
  have "generatePositionBetween d (Some p) (Some q) [] = Inr (?r, d\<lparr>clockD := clockD d + 1\<rparr>)"
    by (simp add: generatePositionBetween_digits stamp_eq)
  moreover have "dense (index p) (index ?r)" by (simp add: dense_midIndex_left)
  moreover have "dense (index ?r) (index q)" using assms by (simp add: dense_midIndex_right)
  ultimately show ?thesis by blast
qed

lemma bisect_dense:
  "dense (index p) (index q) \<Longrightarrow>
     \<exists>rs. bisect cs d p q = Inr rs \<and> length rs = length cs \<and>
          (\<forall>r \<in> set rs. digitsLess (index p) (index r) \<and> digitsLess (index r) (index q)) \<and>
          distinct (map index rs)"
proof (induction cs arbitrary: d p q)
  case Nil
  show ?case by simp
next
  case (Cons left cs)
  let ?d' = "d\<lparr>clockD := clockD d + 1\<rparr>"
  from between_dense [OF Cons.prems, of d]
  obtain r where g: "generatePositionBetween d (Some p) (Some q) [] = Inr (r, ?d')"
    and pr: "dense (index p) (index r)" and rq: "dense (index r) (index q)" by blast
  note lpr = dense_digitsLess [OF pr] and lrq = dense_digitsLess [OF rq]
  show ?case
  proof (cases left)
    case True
    from Cons.IH [OF pr, of ?d']
    obtain rs where b: "bisect cs ?d' p r = Inr rs" and l: "length rs = length cs"
      and m: "\<forall>x \<in> set rs. digitsLess (index p) (index x) \<and> digitsLess (index x) (index r)"
      and di: "distinct (map index rs)" by blast
    have "\<forall>x \<in> set rs. digitsLess (index x) (index q)"
      using m lrq digitsLess_trans by blast
    moreover have "index r \<notin> set (map index rs)"
      using m digitsLess_irrefl by force
    ultimately show ?thesis
      using True g b l m di lpr lrq by auto
  next
    case False
    from Cons.IH [OF rq, of ?d']
    obtain rs where b: "bisect cs ?d' r q = Inr rs" and l: "length rs = length cs"
      and m: "\<forall>x \<in> set rs. digitsLess (index r) (index x) \<and> digitsLess (index x) (index q)"
      and di: "distinct (map index rs)" by blast
    have "\<forall>x \<in> set rs. digitsLess (index p) (index x)"
      using m lpr digitsLess_trans by blast
    moreover have "index r \<notin> set (map index rs)"
      using m digitsLess_irrefl by force
    ultimately show ?thesis
      using False g b l m di lpr lrq by auto
  qed
qed

lemma index_differs_comparePositions:
  "index a \<noteq> index b \<Longrightarrow> comparePositions lc a b \<noteq> 0"
  by (simp add: comparePositions_cmpIndex cmpIndex_zero)

section \<open>Density\<close>

text \<open>
  C1, as stated, fails: two positions with the same digits are ordered by their clocks
  (or sites), and the position allocated "between" them extends the shared digits, so it
  comes after both. \<open>docAA\<close> holds such a pair after two plain inserts.
\<close>

theorem between_equal_digits_counterexample:
  "comparePositions codeUnitCompare posA1 posA2 < 0 \<and>
   generatePositionBetween docAA (Some posA1) (Some posA2) [] =
     Inr (posLong, docAA\<lparr>clockD := 3\<rparr>) \<and>
   0 < comparePositions codeUnitCompare posLong posA2"
proof -
  have "comparePositions codeUnitCompare posA1 posA2 < 0"
    by (simp add: comparePositions_def posA1_def posA2_def)
  moreover have "generatePositionBetween docAA (Some posA1) (Some posA2) [] =
      Inr (posLong, docAA\<lparr>clockD := 3\<rparr>)"
    by (simp add: generatePositionBetween_digits stamp_eq posA1_def posA2_def posLong_def
        docAA_def BASE_def)
  moreover have "0 < comparePositions codeUnitCompare posLong posA2"
    by (simp add: comparePositions_def posLong_def posA2_def)
  ultimately show ?thesis by blast
qed

lemma midIndex_tail:
  "\<forall>a \<in> set P. 0 \<le> a \<Longrightarrow> \<forall>a \<in> set Q. 0 \<le> a \<Longrightarrow>
     midIndex P Q \<noteq> [] \<and> (\<forall>a \<in> set (midIndex P Q). 0 \<le> a) \<and> 0 < last (midIndex P Q)"
proof (induction P Q rule: midIndex.induct)
  case 1
  show ?case by (simp add: BASE_def)
next
  case (2 y ys)
  from "2.prems"(2) have ny: "\<forall>a \<in> set ys. 0 \<le> a" by simp
  show ?case
  proof (cases "y > 1")
    case True
    with half_pos [of y] show ?thesis by simp
  next
    case False
    from "2.IH" [OF False "2.prems"(1) ny] False show ?thesis by simp
  qed
next
  case (3 x xs)
  from "3.prems"(1) have nx: "\<forall>a \<in> set xs. 0 \<le> a" and x0: "0 \<le> x" by simp_all
  show ?case
  proof (cases "BASE - x > 1")
    case True
    with half_pos [of "BASE - x"] x0 show ?thesis by simp
  next
    case False
    from "3.IH" [OF False nx "3.prems"(2)] False x0 show ?thesis by simp
  qed
next
  case (4 x xs y ys)
  from "4.prems" have nx: "\<forall>a \<in> set xs. 0 \<le> a" and ny: "\<forall>a \<in> set ys. 0 \<le> a"
    and x0: "0 \<le> x" by simp_all
  show ?case
  proof (cases "x = y")
    case True
    from "4.IH"(1) [OF True nx ny] True x0 show ?thesis by simp
  next
    case False
    show ?thesis
    proof (cases "y - x > 1")
      case True
      with half_pos [of "y - x"] x0 False show ?thesis by simp
    next
      case small: False
      from "4.IH"(2) [OF False small nx ny] False small x0 show ?thesis by simp
    qed
  qed
qed

lemma allocated_midIndex:
  assumes "allocated P" "allocated Q"
  shows "allocated (midIndex P Q)"
proof -
  from assms obtain x xs y ys where P: "P = x # xs" and Q: "Q = y # ys"
    by (cases P; cases Q) (auto simp: allocated_def)
  from assms P Q have n: "\<forall>a \<in> set xs. 0 \<le> a" "\<forall>a \<in> set ys. 0 \<le> a"
    by (simp_all add: allocated_def)
  note t = midIndex_tail [OF n]
  show ?thesis
  proof (cases "x \<noteq> y \<and> y - x > 1")
    case True
    with P Q show ?thesis by (simp add: allocated_def)
  next
    case False
    then have "midIndex P Q = x # midIndex xs ys" using P Q by auto
    with t show ?thesis by (simp add: allocated_def)
  qed
qed

lemma allocated_results:
  "allocated [BASE]"
  "allocated P \<Longrightarrow> allocated (generatePositionAfter P)"
  "generatePositionBefore P = Some R \<Longrightarrow> allocated R"
proof -
  show "allocated [BASE]" by (simp add: allocated_def)
  show "allocated P \<Longrightarrow> allocated (generatePositionAfter P)"
    by (cases P) (auto simp: allocated_def generatePositionAfter_def BASE_def)
  show "generatePositionBefore P = Some R \<Longrightarrow> allocated R"
    by (cases P) (auto simp: allocated_def split: if_splits)
qed

lemma generatePositionBetween_allocated:
  assumes "\<forall>p. prev = Some p \<longrightarrow> allocated (index p)"
    and "\<forall>q. next = Some q \<longrightarrow> allocated (index q)"
  shows "\<exists>r d'. generatePositionBetween d prev next [] = Inr (r, d') \<and> allocated (index r)"
proof (cases prev)
  case None
  show ?thesis
  proof (cases "next")
    case n: None
    with None allocated_results(1) show ?thesis by (simp add: stamp_eq)
  next
    case (Some q)
    with assms(2) obtain dg rest where q: "index q = dg # rest"
      by (cases "index q") (auto simp: allocated_def)
    then obtain R where R: "generatePositionBefore (index q) = Some R"
      by (cases "dg \<le> BOUNDARY") simp_all
    with None Some allocated_results(3) [OF R] show ?thesis by (simp add: stamp_eq)
  qed
next
  case (Some p)
  with assms(1) have ap: "allocated (index p)" by simp
  show ?thesis
  proof (cases "next")
    case None
    with Some allocated_results(2) [OF ap] show ?thesis by (simp add: stamp_eq)
  next
    case s: (Some q)
    with assms(2) have "allocated (index q)" by simp
    with ap have "allocated (midIndex (index p) (index q))" by (rule allocated_midIndex)
    with Some s show ?thesis by (simp add: generatePositionBetween_digits stamp_eq)
  qed
qed

lemma dense_tail:
  "digitsLess xs ys \<Longrightarrow> \<forall>a \<in> set ys. 0 \<le> a \<Longrightarrow> 0 < last ys \<Longrightarrow> dense xs ys"
proof (induction xs ys rule: dense.induct)
  case 1
  then show ?case by simp
next
  case (2 y ys)
  show ?case
  proof (cases "y = 0")
    case True
    with "2.prems" have ne: "ys \<noteq> []" by auto
    then have "digitsLess [] ys" by (cases ys) simp_all
    moreover from "2.prems" ne have "\<forall>a \<in> set ys. 0 \<le> a" "0 < last ys" by simp_all
    ultimately have "dense [] ys" using "2.IH" True by simp
    with True show ?thesis by simp
  next
    case False
    with "2.prems" show ?thesis by simp
  qed
next
  case (3 x xs)
  then show ?case by simp
next
  case (4 x xs y ys)
  show ?case
  proof (cases "x < y")
    case True
    then show ?thesis by simp
  next
    case False
    with "4.prems"(1) have xy: "x = y" and l: "digitsLess xs ys" by auto
    from l have ne: "ys \<noteq> []" by (cases ys; cases xs) simp_all
    with "4.prems" have "\<forall>a \<in> set ys. 0 \<le> a" "0 < last ys" by simp_all
    with "4.IH" xy l show ?thesis by simp
  qed
qed

lemma allocated_dense:
  assumes "allocated P" "allocated Q" "digitsLess P Q"
  shows "dense P Q"
proof -
  from assms(1,2) obtain x xs y ys where P: "P = x # xs" and Q: "Q = y # ys"
    by (cases P; cases Q) (auto simp: allocated_def)
  show ?thesis
  proof (cases "x < y")
    case True
    with P Q show ?thesis by simp
  next
    case False
    with assms(3) P Q have xy: "x = y" and l: "digitsLess xs ys" by auto
    from l have ne: "ys \<noteq> []" by (cases ys; cases xs) simp_all
    with assms(2) Q have "\<forall>a \<in> set ys. 0 \<le> a" "0 < last ys" by (simp_all add: allocated_def)
    with l have "dense xs ys" by (rule dense_tail)
    with xy P Q show ?thesis by simp
  qed
qed

lemma midIndex_after:
  "digitsLess P Q \<or> P = Q \<Longrightarrow> \<not> dense P Q \<Longrightarrow> digitsLess Q (midIndex P Q)"
proof (induction P Q rule: midIndex.induct)
  case 1
  show ?case by (simp add: BASE_def)
next
  case (2 y ys)
  from "2.prems"(2) have y: "\<not> 0 < y" and r: "y = 0 \<longrightarrow> \<not> dense [] ys" by simp_all
  have le: "digitsLess [] ys \<or> [] = ys" by (cases ys) simp_all
  show ?case
  proof (cases "y = 0")
    case True
    with r "2.IH" le y have "digitsLess ys (midIndex [] ys)" by simp
    with True show ?thesis by simp
  next
    case False
    with y show ?thesis by simp
  qed
next
  case (3 x xs)
  then show ?case by simp
next
  case (4 x xs y ys)
  from "4.prems" have xy: "x = y" and le: "digitsLess xs ys \<or> xs = ys"
    and nd: "\<not> dense xs ys" by auto
  from "4.IH"(1) [OF xy le nd] xy show ?case by simp
qed

lemma comparePositions_neg_digits:
  assumes "comparePositions lc a b < 0"
  shows "digitsLess (index a) (index b) \<or> index a = index b"
proof (cases "cmpIndex (index a) (index b) = 0")
  case True
  then show ?thesis by (simp add: cmpIndex_zero)
next
  case False
  with assms have "cmpIndex (index a) (index b) < 0" by (simp add: comparePositions_cmpIndex)
  then show ?thesis by (simp add: cmpIndex_neg)
qed

lemma digitsLess_comparePositions_pos:
  assumes "digitsLess (index b) (index a)"
  shows "0 < comparePositions lc a b"
proof -
  from assms have "0 < cmpIndex (index a) (index b)" by (simp add: cmpIndex_pos)
  then show ?thesis by (simp add: comparePositions_cmpIndex)
qed

text \<open>
  C1, amended. Let the digits of \<open>p\<close> and \<open>q\<close> be \<open>dense\<close>: at the first place where
  they differ \<open>p\<close>'s digit is the smaller, or \<open>p\<close>'s digits are a proper prefix of
  \<open>q\<close>'s and the first digit of \<open>q\<close> after them that is not zero is positive. Then
  \<open>p < q\<close>, \<open>generatePositionBetween(p, q)\<close> returns a position \<open>r\<close> with
  \<open>p < r < q\<close>, and repeated bisection to any depth (50 included) returns as many
  positions as rounds, each strictly between \<open>p\<close> and \<open>q\<close> and no two of them equal
  under the comparator. For every other pair \<open>p < q\<close> the position returned still
  comes after \<open>p\<close>, but after \<open>q\<close> as well. Among the digit sequences that the
  allocator makes (\<open>allocated\<close>, see \<open>generatePositionBetween_allocated\<close>), every
  pair \<open>p < q\<close> with different digits is dense: there the only pairs without room
  are those that share their digits and are ordered by site or clock.
\<close>

theorem between_is_strictly_between:
  "(dense (index p) (index q) \<longrightarrow>
      comparePositions lc p q < 0 \<and>
      (\<exists>r d'. generatePositionBetween d (Some p) (Some q) [] = Inr (r, d') \<and>
              comparePositions lc p r < 0 \<and> comparePositions lc r q < 0) \<and>
      (\<exists>rs. bisect cs d p q = Inr rs \<and> length rs = length cs \<and>
            (\<forall>r \<in> set rs. comparePositions lc p r < 0 \<and> comparePositions lc r q < 0) \<and>
            (\<forall>i < length rs. \<forall>j < length rs.
               i \<noteq> j \<longrightarrow> comparePositions lc (rs ! i) (rs ! j) \<noteq> 0))) \<and>
   (comparePositions lc p q < 0 \<and> \<not> dense (index p) (index q) \<longrightarrow>
      (\<exists>r d'. generatePositionBetween d (Some p) (Some q) [] = Inr (r, d') \<and>
              comparePositions lc p r < 0 \<and> 0 < comparePositions lc r q)) \<and>
   (allocated (index p) \<and> allocated (index q) \<and> comparePositions lc p q < 0 \<and>
    index p \<noteq> index q \<longrightarrow> dense (index p) (index q))"
proof (intro conjI impI)
  assume dn: "dense (index p) (index q)"
  show "comparePositions lc p q < 0"
    using dn by (rule dense_comparePositions)
  show "\<exists>r d'. generatePositionBetween d (Some p) (Some q) [] = Inr (r, d') \<and>
      comparePositions lc p r < 0 \<and> comparePositions lc r q < 0"
    using between_dense [OF dn, of d] dense_comparePositions by blast
  show "\<exists>rs. bisect cs d p q = Inr rs \<and> length rs = length cs \<and>
      (\<forall>r \<in> set rs. comparePositions lc p r < 0 \<and> comparePositions lc r q < 0) \<and>
      (\<forall>i < length rs. \<forall>j < length rs.
         i \<noteq> j \<longrightarrow> comparePositions lc (rs ! i) (rs ! j) \<noteq> 0)"
  proof -
    from bisect_dense [OF dn, of cs d]
    obtain rs where b: "bisect cs d p q = Inr rs" and l: "length rs = length cs"
      and m: "\<forall>r \<in> set rs. digitsLess (index p) (index r) \<and> digitsLess (index r) (index q)"
      and di: "distinct (map index rs)" by blast
    have "\<forall>r \<in> set rs. comparePositions lc p r < 0 \<and> comparePositions lc r q < 0"
      using m digitsLess_comparePositions by blast
    moreover have "\<forall>i < length rs. \<forall>j < length rs.
        i \<noteq> j \<longrightarrow> comparePositions lc (rs ! i) (rs ! j) \<noteq> 0"
    proof (intro allI impI)
      fix i j assume i: "i < length rs" and j: "j < length rs" and ij: "i \<noteq> j"
      with di nth_eq_iff_index_eq [of "map index rs" i j]
      have "map index rs ! i \<noteq> map index rs ! j" by simp
      with i j have "index (rs ! i) \<noteq> index (rs ! j)" by simp
      then show "comparePositions lc (rs ! i) (rs ! j) \<noteq> 0"
        by (rule index_differs_comparePositions)
    qed
    ultimately show ?thesis using b l by blast
  qed
next
  assume a: "comparePositions lc p q < 0 \<and> \<not> dense (index p) (index q)"
  let ?r = "\<lparr>index = midIndex (index p) (index q), site = siteId d, clock = clockD d + 1\<rparr>"
  have g: "generatePositionBetween d (Some p) (Some q) [] = Inr (?r, d\<lparr>clockD := clockD d + 1\<rparr>)"
    by (simp add: generatePositionBetween_digits stamp_eq)
  have "dense (index p) (index ?r)" by (simp add: dense_midIndex_left)
  then have l: "comparePositions lc p ?r < 0" by (rule dense_comparePositions)
  from a have "digitsLess (index p) (index q) \<or> index p = index q"
    using comparePositions_neg_digits by blast
  with a have "digitsLess (index q) (midIndex (index p) (index q))"
    using midIndex_after by blast
  then have "digitsLess (index q) (index ?r)" by simp
  then have "0 < comparePositions lc ?r q" by (rule digitsLess_comparePositions_pos)
  with g l show "\<exists>r d'. generatePositionBetween d (Some p) (Some q) [] = Inr (r, d') \<and>
      comparePositions lc p r < 0 \<and> 0 < comparePositions lc r q" by blast
next
  assume a: "allocated (index p) \<and> allocated (index q) \<and> comparePositions lc p q < 0 \<and>
    index p \<noteq> index q"
  then have "digitsLess (index p) (index q)"
    using comparePositions_neg_digits by blast
  with a show "dense (index p) (index q)" using allocated_dense by blast
qed

theorem between_is_strictly_between_witness:
  "dense (index posA1) (index posQ) \<and>
   comparePositions codeUnitCompare posA1 posQ < 0 \<and>
   (\<exists>r d'. generatePositionBetween docX (Some posA1) (Some posQ) [] = Inr (r, d') \<and>
           comparePositions codeUnitCompare posA1 r < 0 \<and>
           comparePositions codeUnitCompare r posQ < 0) \<and>
   (\<exists>rs. bisect (replicate 50 True) docX posA1 posQ = Inr rs \<and> length rs = 50 \<and>
         (\<forall>r \<in> set rs. comparePositions codeUnitCompare posA1 r < 0 \<and>
                         comparePositions codeUnitCompare r posQ < 0) \<and>
         (\<forall>i < length rs. \<forall>j < length rs.
            i \<noteq> j \<longrightarrow> comparePositions codeUnitCompare (rs ! i) (rs ! j) \<noteq> 0)) \<and>
   bisect [True, False, True] docX posA1 posQ =
     Inr [\<lparr>index = [32, 16], site = ''A'', clock = 2\<rparr>,
          \<lparr>index = [32, 8], site = ''A'', clock = 3\<rparr>,
          \<lparr>index = [32, 12], site = ''A'', clock = 4\<rparr>] \<and>
   comparePositions codeUnitCompare posA1 posA2 < 0 \<and>
   \<not> dense (index posA1) (index posA2) \<and>
   (\<exists>r d'. generatePositionBetween docAA (Some posA1) (Some posA2) [] = Inr (r, d') \<and>
           comparePositions codeUnitCompare posA1 r < 0 \<and>
           0 < comparePositions codeUnitCompare r posA2) \<and>
   allocated (index posA1) \<and> allocated (index posLong) \<and>
   comparePositions codeUnitCompare posA1 posLong < 0 \<and> index posA1 \<noteq> index posLong \<and>
   dense (index posA1) (index posLong)"
proof -
  have h: "dense (index posA1) (index posQ)"
    by (simp add: posA1_def posQ_def)
  have e: "bisect [True, False, True] docX posA1 posQ =
     Inr [\<lparr>index = [32, 16], site = ''A'', clock = 2\<rparr>,
          \<lparr>index = [32, 8], site = ''A'', clock = 3\<rparr>,
          \<lparr>index = [32, 12], site = ''A'', clock = 4\<rparr>]"
    by (simp add: generatePositionBetween_digits stamp_eq posA1_def posQ_def docX_def BASE_def)
  have c: "comparePositions codeUnitCompare posA1 posA2 < 0"
    by (simp add: comparePositions_def posA1_def posA2_def)
  have n: "\<not> dense (index posA1) (index posA2)"
    by (simp add: posA1_def posA2_def)
  note t1 = between_is_strictly_between
    [where p = posA1 and q = posQ and lc = codeUnitCompare and d = docX
       and cs = "replicate 50 True"]
  note t2 = between_is_strictly_between
    [where p = posA1 and q = posA2 and lc = codeUnitCompare and d = docAA]
  from t1 h have a1: "comparePositions codeUnitCompare posA1 posQ < 0" by blast
  from t1 h have a2: "\<exists>r d'. generatePositionBetween docX (Some posA1) (Some posQ) [] = Inr (r, d') \<and>
           comparePositions codeUnitCompare posA1 r < 0 \<and>
           comparePositions codeUnitCompare r posQ < 0" by blast
  from t1 h have "\<exists>rs. bisect (replicate 50 True) docX posA1 posQ = Inr rs \<and>
         length rs = length (replicate 50 True :: bool list) \<and>
         (\<forall>r \<in> set rs. comparePositions codeUnitCompare posA1 r < 0 \<and>
                         comparePositions codeUnitCompare r posQ < 0) \<and>
         (\<forall>i < length rs. \<forall>j < length rs.
            i \<noteq> j \<longrightarrow> comparePositions codeUnitCompare (rs ! i) (rs ! j) \<noteq> 0)" by blast
  then have a3: "\<exists>rs. bisect (replicate 50 True) docX posA1 posQ = Inr rs \<and> length rs = 50 \<and>
         (\<forall>r \<in> set rs. comparePositions codeUnitCompare posA1 r < 0 \<and>
                         comparePositions codeUnitCompare r posQ < 0) \<and>
         (\<forall>i < length rs. \<forall>j < length rs.
            i \<noteq> j \<longrightarrow> comparePositions codeUnitCompare (rs ! i) (rs ! j) \<noteq> 0)" by simp
  from t2 c n have a4: "\<exists>r d'. generatePositionBetween docAA (Some posA1) (Some posA2) [] = Inr (r, d') \<and>
           comparePositions codeUnitCompare posA1 r < 0 \<and>
           0 < comparePositions codeUnitCompare r posA2" by blast
  have al: "allocated (index posA1)" "allocated (index posLong)"
    "comparePositions codeUnitCompare posA1 posLong < 0" "index posA1 \<noteq> index posLong"
    by (simp_all add: allocated_def comparePositions_def posA1_def posLong_def)
  from between_is_strictly_between
    [where p = posA1 and q = posLong and lc = codeUnitCompare] al
  have a5: "dense (index posA1) (index posLong)" by blast
  from h a1 a2 a3 e c n a4 al a5 show ?thesis by blast
qed

section \<open>Allocation before the first character\<close>

text \<open>
  C6, as stated, has the two steps the wrong way round: at leading digit 1, as near
  the minimum as an allocated digit gets before it reaches 0, the code subtracts 1 and
  not \<open>BOUNDARY\<close>; at leading digit 32 it subtracts \<open>BOUNDARY\<close>.
\<close>

theorem before_step_counterexample:
  "generatePositionBetween docX None (Some posOne) [] =
     Inr (\<lparr>index = [0], site = ''A'', clock = 2\<rparr>, docX\<lparr>clockD := 2\<rparr>) \<and>
   [0 :: int] \<noteq> [1 - BOUNDARY] \<and>
   generatePositionBetween docX None (Some posA1) [] =
     Inr (\<lparr>index = [32 - BOUNDARY], site = ''A'', clock = 2\<rparr>, docX\<lparr>clockD := 2\<rparr>)"
  by (simp add: stamp_eq posOne_def posA1_def docX_def BOUNDARY_def)

text \<open>
  C6, amended. For every position \<open>next\<close> with at least one digit,
  \<open>generatePositionBetween(null, next)\<close> returns a position strictly less than
  \<open>next\<close>, stamped with the site and the next clock tick, whose only digit is
  \<open>next\<close>'s leading digit minus 1 when that digit is at most \<open>BOUNDARY\<close> (10), and
  minus \<open>BOUNDARY\<close> when it is larger.
\<close>

theorem before_decrements_leading_digit:
  assumes "index next = dg # rest"
  shows "\<exists>r. generatePositionBetween d None (Some next) newPos =
               Inr (r, d\<lparr>clockD := clockD d + 1\<rparr>) \<and>
             comparePositions lc r next < 0 \<and>
             index r = [if dg \<le> BOUNDARY then dg - 1 else dg - BOUNDARY] \<and>
             site r = siteId d \<and> clock r = clockD d + 1"
proof -
  let ?ix = "[if dg \<le> BOUNDARY then dg - 1 else dg - BOUNDARY]"
  let ?r = "\<lparr>index = ?ix, site = siteId d, clock = clockD d + 1\<rparr>"
  have "generatePositionBetween d None (Some next) newPos =
      Inr (?r, d\<lparr>clockD := clockD d + 1\<rparr>)"
    using assms by (simp add: stamp_eq)
  moreover have "digitsLess (index ?r) (index next)"
    using assms by (simp add: BOUNDARY_def)
  then have "comparePositions lc ?r next < 0" by (rule digitsLess_comparePositions)
  ultimately show ?thesis by (intro exI [of _ ?r]) simp
qed

theorem before_decrements_leading_digit_witness:
  "index posA1 = 32 # [] \<and>
   (\<exists>r. generatePositionBetween docX None (Some posA1) [] =
           Inr (r, docX\<lparr>clockD := clockD docX + 1\<rparr>) \<and>
        comparePositions codeUnitCompare r posA1 < 0 \<and>
        index r = [22] \<and> site r = ''A'' \<and> clock r = 2)"
proof -
  have h: "index posA1 = 32 # []" by (simp add: posA1_def)
  from before_decrements_leading_digit [OF h, of docX "[]" codeUnitCompare] h
  show ?thesis by (simp add: BOUNDARY_def docX_def)
qed

section \<open>Facts about rendering\<close>

lemma set_insertSorted: "set (insertSorted cmp x ys) = insert x (set ys)"
  by (induction ys) auto

lemma set_arraySort: "set (arraySort cmp xs) = set xs"
  by (induction xs) (simp_all add: arraySort_def set_insertSorted)

lemma getText_not_deleted: "c \<in> set (getText lc d) \<Longrightarrow> \<not> deleted (metadata c)"
  by (simp add: getText_def set_arraySort)

lemma getText_docX: "getText lc docX = [charX]"
  by (simp add: getText_def arraySort_def docX_def charX_def)

lemma getText_docY: "getText lc docY = []"
  by (simp add: getText_def arraySort_def docY_def charXdel_def)

lemma merge_docX_docY: "merge lc docX docY = docX"
  by (simp add: merge_def mergeStep_def mapHas_def mapGet_def docX_def docY_def charX_def
      charXdel_def comparePositions_def)

lemma merge_docY_docX: "merge lc docY docX = docY"
  by (simp add: merge_def mergeStep_def mapHas_def mapGet_def docX_def docY_def charX_def
      charXdel_def comparePositions_def)

section \<open>Same identifier, same position\<close>

text \<open>
  C10. When both stores hold an identifier and the incoming position compares equal
  to the receiver's, the merge keeps the receiver's character and drops the incoming
  one whole, metadata included. With the same position on both sides this holds in
  either direction, so each receiver keeps its own copy: where the copies differ (a
  deletion or a formatting change on one side) the outcome depends on who receives.
\<close>

theorem merge_equal_positions_keeps_local:
  assumes "uniqueKeys this" "uniqueKeys other"
    and "mapGet (characters this) k = Some a" "mapGet (characters other) k = Some b"
  shows "(comparePositions lc (position b) (position a) = 0 \<longrightarrow>
            mapGet (characters (merge lc this other)) k = Some a) \<and>
         (position a = position b \<longrightarrow>
            comparePositions lc (position b) (position a) = 0 \<and>
            mapGet (characters (merge lc this other)) k = Some a \<and>
            mapGet (characters (merge lc other this)) k = Some b)"
proof -
  have l: "comparePositions lc (position b) (position a) = 0 \<longrightarrow>
      mapGet (characters (merge lc this other)) k = Some a"
    using assms(2,3,4) by (simp add: mapGet_merge)
  have "position a = position b \<longrightarrow>
      comparePositions lc (position b) (position a) = 0 \<and>
      comparePositions lc (position a) (position b) = 0"
    by (simp add: comparePositions_same)
  moreover have "comparePositions lc (position a) (position b) = 0 \<longrightarrow>
      mapGet (characters (merge lc other this)) k = Some b"
    using assms(1,3,4) by (simp add: mapGet_merge)
  ultimately show ?thesis using l by blast
qed

theorem merge_equal_positions_keeps_local_witness:
  "uniqueKeys docX \<and> uniqueKeys docY \<and>
   mapGet (characters docX) ''x'' = Some charX \<and>
   mapGet (characters docY) ''x'' = Some charXdel \<and>
   position charX = position charXdel \<and> charX \<noteq> charXdel \<and>
   mapGet (characters (merge codeUnitCompare docX docY)) ''x'' = Some charX \<and>
   mapGet (characters (merge codeUnitCompare docY docX)) ''x'' = Some charXdel \<and>
   getText codeUnitCompare (merge codeUnitCompare docX docY) = [charX] \<and>
   getText codeUnitCompare (merge codeUnitCompare docY docX) = []"
proof -
  have u: "uniqueKeys docX" "uniqueKeys docY"
    by (simp_all add: uniqueKeys_def docX_def docY_def)
  have g: "mapGet (characters docX) ''x'' = Some charX"
    "mapGet (characters docY) ''x'' = Some charXdel"
    by (simp_all add: mapGet_def docX_def docY_def)
  have p: "position charX = position charXdel" "charX \<noteq> charXdel"
    by (simp_all add: charXdel_def charX_def)
  have t: "getText codeUnitCompare (merge codeUnitCompare docX docY) = [charX]"
    "getText codeUnitCompare (merge codeUnitCompare docY docX) = []"
    by (simp_all add: merge_docX_docY merge_docY_docX getText_docX getText_docY)
  from merge_equal_positions_keeps_local [OF u g, of codeUnitCompare] u g p t
  show ?thesis by simp
qed

section \<open>Tombstones\<close>

text \<open>
  C3, as stated, fails in one direction: \<open>docY\<close> holds the character deleted,
  \<open>docX\<close> holds it live at the same position; merged into \<open>docX\<close> the character
  stays live and is rendered.
\<close>

theorem deletion_lost_in_merge_counterexample:
  "mapGet (characters docY) ''x'' = Some charXdel \<and> deleted (metadata charXdel) \<and>
   mapGet (characters docX) ''x'' = Some charX \<and> \<not> deleted (metadata charX) \<and>
   mapGet (characters (merge codeUnitCompare docX docY)) ''x'' = Some charX \<and>
   getText codeUnitCompare (merge codeUnitCompare docX docY) = [charX]"
  by (simp add: merge_docX_docY getText_docX)
    (simp add: mapGet_def docX_def docY_def charXdel_def charX_def)

text \<open>
  C3, amended. A character whose \<open>deleted\<close> flag is set never appears in
  \<open>getText()\<close>. If \<open>A\<close> holds a deleted character and \<open>B\<close> holds the same
  identifier, then merging \<open>B\<close> into \<open>A\<close> keeps \<open>A\<close>'s tombstone unless \<open>B\<close>'s copy
  has a strictly greater position, and merging \<open>A\<close> into \<open>B\<close> brings the tombstone to
  \<open>B\<close> when \<open>A\<close>'s position is strictly greater than that of \<open>B\<close>'s copy.
\<close>

theorem tombstones_hidden_and_kept_by_receiver:
  "(\<forall>c \<in> set (getText lc d). \<not> deleted (metadata c)) \<and>
   (uniqueKeys B \<and> mapGet (characters A) k = Some a \<and> deleted (metadata a) \<and>
    mapGet (characters B) k = Some b \<and>
    \<not> 0 < comparePositions lc (position b) (position a)
      \<longrightarrow> mapGet (characters (merge lc A B)) k = Some a \<and>
          a \<notin> set (getText lc (merge lc A B))) \<and>
   (uniqueKeys A \<and> mapGet (characters A) k = Some a \<and> deleted (metadata a) \<and>
    mapGet (characters B) k = Some b \<and>
    0 < comparePositions lc (position a) (position b)
      \<longrightarrow> mapGet (characters (merge lc B A)) k = Some a \<and>
          a \<notin> set (getText lc (merge lc B A)))"
proof -
  have h: "\<And>c D. deleted (metadata c) \<Longrightarrow> c \<notin> set (getText lc D)"
    using getText_not_deleted by blast
  have "\<forall>c \<in> set (getText lc d). \<not> deleted (metadata c)"
    using getText_not_deleted by blast
  moreover have "uniqueKeys B \<and> mapGet (characters A) k = Some a \<and> deleted (metadata a) \<and>
    mapGet (characters B) k = Some b \<and>
    \<not> 0 < comparePositions lc (position b) (position a)
      \<longrightarrow> mapGet (characters (merge lc A B)) k = Some a \<and>
          a \<notin> set (getText lc (merge lc A B))"
    using h by (simp add: mapGet_merge)
  moreover have "uniqueKeys A \<and> mapGet (characters A) k = Some a \<and> deleted (metadata a) \<and>
    mapGet (characters B) k = Some b \<and>
    0 < comparePositions lc (position a) (position b)
      \<longrightarrow> mapGet (characters (merge lc B A)) k = Some a \<and>
          a \<notin> set (getText lc (merge lc B A))"
    using h by (simp add: mapGet_merge)
  ultimately show ?thesis by blast
qed

theorem tombstones_hidden_and_kept_by_receiver_witness:
  "getText codeUnitCompare (delete docAA ''x'') = [charY] \<and>
   uniqueKeys docX \<and> mapGet (characters docY) ''x'' = Some charXdel \<and>
   deleted (metadata charXdel) \<and> mapGet (characters docX) ''x'' = Some charX \<and>
   \<not> 0 < comparePositions codeUnitCompare (position charX) (position charXdel) \<and>
   mapGet (characters (merge codeUnitCompare docY docX)) ''x'' = Some charXdel \<and>
   charXdel \<notin> set (getText codeUnitCompare (merge codeUnitCompare docY docX)) \<and>
   uniqueKeys docW \<and> mapGet (characters docW) ''x'' = Some charXfarDel \<and>
   deleted (metadata charXfarDel) \<and>
   0 < comparePositions codeUnitCompare (position charXfarDel) (position charX) \<and>
   mapGet (characters (merge codeUnitCompare docX docW)) ''x'' = Some charXfarDel \<and>
   charXfarDel \<notin> set (getText codeUnitCompare (merge codeUnitCompare docX docW))"
proof -
  have t: "getText codeUnitCompare (delete docAA ''x'') = [charY]"
    by (simp add: getText_def arraySort_def delete_def mapGet_def docAA_def charX_def charY_def)
  have u: "uniqueKeys docX" "uniqueKeys docW"
    by (simp_all add: uniqueKeys_def docX_def docW_def)
  have g: "mapGet (characters docY) ''x'' = Some charXdel"
    "mapGet (characters docX) ''x'' = Some charX"
    "mapGet (characters docW) ''x'' = Some charXfarDel"
    by (simp_all add: mapGet_def docX_def docY_def docW_def)
  have f: "deleted (metadata charXdel)" "deleted (metadata charXfarDel)"
    by (simp_all add: charXdel_def charXfarDel_def)
  have c: "\<not> 0 < comparePositions codeUnitCompare (position charX) (position charXdel)"
    "0 < comparePositions codeUnitCompare (position charXfarDel) (position charX)"
    by (simp_all add: comparePositions_def charXdel_def charXfarDel_def charXfar_def charX_def
        posQ_def)
  from tombstones_hidden_and_kept_by_receiver
         [where lc = codeUnitCompare and d = "delete docAA ''x''" and A = docY and B = docX
            and k = "''x''" and a = charXdel and b = charX]
    tombstones_hidden_and_kept_by_receiver
         [where lc = codeUnitCompare and d = "delete docAA ''x''" and A = docW and B = docX
            and k = "''x''" and a = charXfarDel and b = charX]
    t u g f c
  show ?thesis by simp
qed


section \<open>Facts about insert\<close>

lemma insertC_result:
  assumes "insertC d u v prevId nextId md = Inr (ch, d')"
  shows "\<exists>pos. generatePositionBetween d
                 (resolve (characters d) prevId) (resolve (characters d) nextId) [] =
               Inr (pos, d\<lparr>clockD := clockD d + 1\<rparr>) \<and>
               ch = \<lparr>idC = u, valueC = v, position = pos,
                     metadata = \<lparr>bold = orFalse (boldP md), italic = orFalse (italicP md),
                                 deleted = orFalse (deletedP md)\<rparr>\<rparr> \<and>
               d' = d\<lparr>characters := mapSet (characters d) u ch, clockD := clockD d + 1\<rparr>"
proof (cases "generatePositionBetween d
                (resolve (characters d) prevId) (resolve (characters d) nextId) []")
  case (Inl e)
  with assms show ?thesis by (simp add: insertC_def)
next
  case (Inr r)
  obtain pos d1 where r: "r = (pos, d1)" by (cases r)
  from generatePositionBetween_result [OF Inr [unfolded r]]
  have d1: "d1 = d\<lparr>clockD := clockD d + 1\<rparr>" by simp
  from assms Inr r d1 show ?thesis by (auto simp: insertC_def Let_def)
qed

lemma deleted_again:
  "deleted (metadata c) \<Longrightarrow> c\<lparr>metadata := (metadata c)\<lparr>deleted := True\<rparr>\<rparr> = c"
  by simp

section \<open>Deletion is not terminal\<close>

text \<open>
  C4, as stated, fails: \<open>updateMetadata\<close> with \<open>deleted: false\<close> or with
  \<open>deleted: undefined\<close> clears the flag of a tombstone, which is rendered again, and
  a merge replaces a tombstone by a live copy of the identifier that has a greater
  position.
\<close>

theorem tombstone_revived_counterexample:
  "mapGet (characters docY) ''x'' = Some charXdel \<and> deleted (metadata charXdel) \<and>
   getText codeUnitCompare docY = [] \<and>
   mapGet (characters (updateMetadata docY ''x'' undelete)) ''x'' = Some charX \<and>
   mapGet (characters (updateMetadata docY ''x'' undefinedDeleted)) ''x'' = Some charX \<and>
   getText codeUnitCompare (updateMetadata docY ''x'' undefinedDeleted) = [charX] \<and>
   \<not> deleted (metadata charX) \<and>
   mapGet (characters (merge codeUnitCompare docY docZ)) ''x'' = Some charXfar \<and>
   \<not> deleted (metadata charXfar)"
proof -
  have "mapGet (characters (updateMetadata docY ''x'' undelete)) ''x'' = Some charX"
    by (simp add: updateMetadata_def mapGet_def spread_def spreadFlag_def undelete_def
        docY_def charXdel_def charX_def)
  moreover have "mapGet (characters (updateMetadata docY ''x'' undefinedDeleted)) ''x'' =
      Some charX"
    by (simp add: updateMetadata_def mapGet_def spread_def spreadFlag_def undefinedDeleted_def
        docY_def charXdel_def charX_def)
  moreover have "getText codeUnitCompare (updateMetadata docY ''x'' undefinedDeleted) = [charX]"
    by (simp add: getText_def arraySort_def updateMetadata_def mapGet_def spread_def
        spreadFlag_def undefinedDeleted_def docY_def charXdel_def charX_def)
  moreover have "mapGet (characters (merge codeUnitCompare docY docZ)) ''x'' = Some charXfar"
    by (simp add: merge_def mergeStep_def mapHas_def mapGet_def docY_def docZ_def charXdel_def
        charXfar_def charX_def posQ_def comparePositions_def)
  moreover have "mapGet (characters docY) ''x'' = Some charXdel"
    by (simp add: mapGet_def docY_def)
  moreover have "deleted (metadata charXdel)" "\<not> deleted (metadata charX)"
    "\<not> deleted (metadata charXfar)"
    by (simp_all add: charXdel_def charXfar_def charX_def)
  ultimately show ?thesis using getText_docY by blast
qed

text \<open>
  C4, amended. No operation removes an identifier from the store. A character whose
  \<open>deleted\<close> flag is set keeps it under \<open>delete\<close> and under \<open>insert\<close> of another
  identifier (an insert that draws the same identifier stores the new character in its
  place). Under \<open>updateMetadata\<close> of another identifier it is unchanged; under
  \<open>updateMetadata\<close> of its own identifier it stays deleted exactly when the
  \<open>deleted\<close> field of the partial metadata is absent or \<open>true\<close>, and a field that is
  present with \<open>false\<close> or \<open>undefined\<close> clears the flag. Under \<open>merge\<close> it is
  unchanged unless the incoming store holds the identifier at a strictly greater
  position; then the incoming character, deleted or not, replaces it.
\<close>

theorem tombstone_persistence:
  assumes "mapGet (characters d) k = Some c" "deleted (metadata c)"
  shows "mapGet (characters (delete d k')) k = Some c \<and>
         (insertC d u v prevId nextId md = Inr (ch, d')
            \<longrightarrow> mapGet (characters d') k = (if u = k then Some ch else Some c)) \<and>
         mapGet (characters (updateMetadata d k' pm)) k =
           (if k' = k then Some (c\<lparr>metadata := spread (metadata c) pm\<rparr>) else Some c) \<and>
         deleted (spread (metadata c) pm) = (deletedP pm = Absent \<or> deletedP pm = Given True) \<and>
         (uniqueKeys other \<longrightarrow>
            mapGet (characters (merge lc d other)) k =
              (case mapGet (characters other) k of
                 None \<Rightarrow> Some c
               | Some b \<Rightarrow>
                   if 0 < comparePositions lc (position b) (position c) then Some b
                   else Some c))"
proof -
  have del: "mapGet (characters (delete d k')) k = Some c"
  proof (cases "mapGet (characters d) k'")
    case None
    with assms(1) show ?thesis by (simp add: delete_def)
  next
    case (Some e)
    show ?thesis
    proof (cases "k' = k")
      case True
      with Some assms show ?thesis by (simp add: delete_def mapGet_mapSet)
    next
      case False
      with Some assms(1) show ?thesis by (simp add: delete_def mapGet_mapSet)
    qed
  qed
  have ins: "insertC d u v prevId nextId md = Inr (ch, d')
      \<longrightarrow> mapGet (characters d') k = (if u = k then Some ch else Some c)"
  proof
    assume a: "insertC d u v prevId nextId md = Inr (ch, d')"
    from insertC_result [OF a]
    have "characters d' = mapSet (characters d) u ch" by auto
    then show "mapGet (characters d') k = (if u = k then Some ch else Some c)"
      using assms(1) by (auto simp: mapGet_mapSet)
  qed
  have upd: "mapGet (characters (updateMetadata d k' pm)) k =
      (if k' = k then Some (c\<lparr>metadata := spread (metadata c) pm\<rparr>) else Some c)"
  proof (cases "mapGet (characters d) k'")
    case None
    with assms(1) have "k' \<noteq> k" by auto
    with None assms(1) show ?thesis by (simp add: updateMetadata_def)
  next
    case (Some e)
    show ?thesis
    proof (cases "k' = k")
      case True
      with Some assms(1) show ?thesis by (simp add: updateMetadata_def mapGet_mapSet)
    next
      case False
      with Some assms(1) show ?thesis by (simp add: updateMetadata_def mapGet_mapSet)
    qed
  qed
  have flag: "deleted (spread (metadata c) pm) =
      (deletedP pm = Absent \<or> deletedP pm = Given True)"
    using assms(2) by (cases "deletedP pm") (simp_all add: spread_def spreadFlag_def)
  have mrg: "uniqueKeys other \<longrightarrow>
      mapGet (characters (merge lc d other)) k =
        (case mapGet (characters other) k of
           None \<Rightarrow> Some c
         | Some b \<Rightarrow>
             if 0 < comparePositions lc (position b) (position c) then Some b else Some c)"
  proof
    assume u: "uniqueKeys other"
    show "mapGet (characters (merge lc d other)) k =
        (case mapGet (characters other) k of
           None \<Rightarrow> Some c
         | Some b \<Rightarrow>
             if 0 < comparePositions lc (position b) (position c) then Some b else Some c)"
    proof (cases "mapGet (characters other) k")
      case None
      with assms(1) show ?thesis by (simp add: mapGet_merge [OF u])
    next
      case (Some b)
      with assms(1) show ?thesis by (simp add: mapGet_merge [OF u])
    qed
  qed
  from del ins upd flag mrg show ?thesis by blast
qed

theorem tombstone_persistence_witness:
  "mapGet (characters docY) ''x'' = Some charXdel \<and> deleted (metadata charXdel) \<and>
   mapGet (characters (delete docY ''x'')) ''x'' = Some charXdel \<and>
   (\<exists>ch d'. insertC docY ''u'' ''z'' None None noMetadata = Inr (ch, d') \<and>
            mapGet (characters d') ''x'' = Some charXdel) \<and>
   (\<exists>c'. mapGet (characters (updateMetadata docY ''x''
                   \<lparr>boldP = Given True, italicP = Absent, deletedP = Absent\<rparr>)) ''x'' = Some c' \<and>
         deleted (metadata c') \<and> bold (metadata c')) \<and>
   \<not> deleted (spread (metadata charXdel) undefinedDeleted) \<and>
   uniqueKeys docX \<and>
   mapGet (characters (merge codeUnitCompare docY docX)) ''x'' = Some charXdel \<and>
   uniqueKeys docZ \<and>
   mapGet (characters (merge codeUnitCompare docY docZ)) ''x'' = Some charXfar"
proof -
  have g: "mapGet (characters docY) ''x'' = Some charXdel"
    by (simp add: mapGet_def docY_def)
  have f: "deleted (metadata charXdel)" by (simp add: charXdel_def)
  have u: "uniqueKeys docX" "uniqueKeys docZ" by (simp_all add: uniqueKeys_def docX_def docZ_def)
  let ?ch = "\<lparr>idC = ''u'', valueC = ''z'',
               position = \<lparr>index = [32], site = ''B'', clock = 1\<rparr>,
               metadata = \<lparr>bold = False, italic = False, deleted = False\<rparr>\<rparr>"
  let ?d' = "\<lparr>characters = [(''x'', charXdel), (''u'', ?ch)], siteId = ''B'', clockD = 1\<rparr>"
  let ?pm = "\<lparr>boldP = Given True, italicP = Absent, deletedP = Absent\<rparr>"
  have i: "insertC docY ''u'' ''z'' None None noMetadata = Inr (?ch, ?d')"
    by (simp add: insertC_def resolve_def stamp_eq orFalse_def noMetadata_def docY_def BASE_def
        Let_def)
  have gX: "mapGet (characters docX) ''x'' = Some charX"
    "mapGet (characters docZ) ''x'' = Some charXfar"
    by (simp_all add: mapGet_def docX_def docZ_def)
  have cX: "\<not> 0 < comparePositions codeUnitCompare (position charX) (position charXdel)"
    "0 < comparePositions codeUnitCompare (position charXfar) (position charXdel)"
    by (simp_all add: comparePositions_def charXdel_def charXfar_def charX_def posQ_def)
  note t = tombstone_persistence [OF g f, where k' = "''x''" and u = "''u''" and v = "''z''"
      and prevId = None and nextId = None and md = noMetadata and ch = ?ch and d' = ?d'
      and lc = codeUnitCompare]
  from t [where pm = ?pm and other = docX]
  have a1: "mapGet (characters (delete docY ''x'')) ''x'' = Some charXdel" by blast
  from t [where pm = ?pm and other = docX] i
  have "mapGet (characters ?d') ''x'' = Some charXdel" by simp
  with i have a2: "\<exists>ch d'. insertC docY ''u'' ''z'' None None noMetadata = Inr (ch, d') \<and>
            mapGet (characters d') ''x'' = Some charXdel" by blast
  from t [where pm = ?pm and other = docX]
  have "mapGet (characters (updateMetadata docY ''x'' ?pm)) ''x'' =
      Some (charXdel\<lparr>metadata := spread (metadata charXdel) ?pm\<rparr>)"
    and "deleted (spread (metadata charXdel) ?pm)" by simp_all
  moreover have "bold (spread (metadata charXdel) ?pm)" by (simp add: spread_def spreadFlag_def)
  ultimately have a3: "\<exists>c'. mapGet (characters (updateMetadata docY ''x'' ?pm)) ''x'' = Some c' \<and>
         deleted (metadata c') \<and> bold (metadata c')" by simp
  from t [where pm = undefinedDeleted and other = docX]
  have a4: "\<not> deleted (spread (metadata charXdel) undefinedDeleted)"
    by (simp add: undefinedDeleted_def)
  from t [where pm = ?pm and other = docX] u gX cX
  have a5: "mapGet (characters (merge codeUnitCompare docY docX)) ''x'' = Some charXdel" by simp
  from t [where pm = ?pm and other = docZ] u gX cX
  have a6: "mapGet (characters (merge codeUnitCompare docY docZ)) ''x'' = Some charXfar" by simp
  from g f a1 a2 a3 a4 u a5 a6 show ?thesis by blast
qed

section \<open>Serialisation round trip\<close>

lemma numbers_round_trip: "allSome (map (numberOfJSON \<circ> JNumber) ds) = Some ds"
  by (induction ds) simp_all

lemma position_round_trip: "positionOfJSON (positionToJSON p) = Some p"
  by (simp add: positionOfJSON_def positionToJSON_def numbers_round_trip)

lemma metadata_round_trip: "metadataOfJSON (metadataToJSON m) = Some m"
  by (simp add: metadataOfJSON_def metadataToJSON_def)

lemma character_round_trip: "characterOfJSON (characterToJSON c) = Some c"
  by (simp add: characterOfJSON_def characterToJSON_def position_round_trip
      metadata_round_trip)

lemma entries_round_trip:
  "allSome (map (entryOfJSON \<circ> (\<lambda>(k, c). JArray [JString k, characterToJSON c])) es) = Some es"
  by (induction es) (auto simp: character_round_trip)

lemma fold_mapSet_distinct:
  "distinct (map fst (acc @ es)) \<Longrightarrow> fold (\<lambda>(k, c) m. mapSet m k c) es acc = acc @ es"
proof (induction es arbitrary: acc)
  case Nil
  show ?case by simp
next
  case (Cons e es)
  obtain k c where e: "e = (k, c)" by (cases e)
  from Cons.prems e have n: "k \<notin> set (map fst acc)" by auto
  from Cons.prems e have "distinct (map fst ((acc @ [(k, c)]) @ es))" by simp
  from Cons.IH [OF this] e n show ?case by (simp add: mapSet_absent)
qed

lemma newMap_distinct: "distinct (map fst es) \<Longrightarrow> newMap es = es"
  using fold_mapSet_distinct [of "[]" es] by (simp add: newMap_def)

text \<open>
  C7. For every store, reading back what \<open>toJSON\<close> wrote gives a document with
  exactly the same entries in the same order, tombstones and metadata flags included
  (with the site passed to \<open>fromJSON\<close> and the clock back at 0), and so the same
  \<open>getText()\<close>.
\<close>

theorem json_round_trip:
  assumes "uniqueKeys d"
  shows "fromJSON (toJSON d) s = Inr \<lparr>characters = characters d, siteId = s, clockD = 0\<rparr> \<and>
         getText lc \<lparr>characters = characters d, siteId = s, clockD = 0\<rparr> = getText lc d"
proof -
  from assms have "newMap (characters d) = characters d"
    by (simp add: uniqueKeys_def newMap_distinct)
  then have "fromJSON (toJSON d) s = Inr \<lparr>characters = characters d, siteId = s, clockD = 0\<rparr>"
    by (simp add: fromJSON_def toJSON_def entries_round_trip newDocument_def)
  moreover have "getText lc \<lparr>characters = characters d, siteId = s, clockD = 0\<rparr> = getText lc d"
    by (simp add: getText_def)
  ultimately show ?thesis by simp
qed

theorem json_round_trip_witness:
  "uniqueKeys (delete docAA ''x'') \<and>
   fromJSON (toJSON (delete docAA ''x'')) ''B'' =
     Inr \<lparr>characters = [(''x'', charXdel), (''y'', charY)], siteId = ''B'', clockD = 0\<rparr> \<and>
   getText codeUnitCompare
     \<lparr>characters = [(''x'', charXdel), (''y'', charY)], siteId = ''B'', clockD = 0\<rparr> = [charY] \<and>
   getText codeUnitCompare (delete docAA ''x'') = [charY]"
proof -
  have c: "characters (delete docAA ''x'') = [(''x'', charXdel), (''y'', charY)]"
    by (simp add: delete_def mapGet_def docAA_def charXdel_def charX_def)
  then have u: "uniqueKeys (delete docAA ''x'')" by (simp add: uniqueKeys_def)
  have t: "getText codeUnitCompare (delete docAA ''x'') = [charY]"
    by (simp add: getText_def arraySort_def c charXdel_def charX_def charY_def)
  from json_round_trip [OF u, of "''B''" codeUnitCompare] c u t show ?thesis by simp
qed

section \<open>The store's invariant\<close>

lemma uniqueKeys_newDocument: "uniqueKeys (newDocument s)"
  by (simp add: uniqueKeys_def newDocument_def)

lemma uniqueKeys_delete: "uniqueKeys d \<Longrightarrow> uniqueKeys (delete d k)"
  by (simp add: uniqueKeys_def delete_def distinct_keys_mapSet split: option.splits)

lemma uniqueKeys_updateMetadata: "uniqueKeys d \<Longrightarrow> uniqueKeys (updateMetadata d k md)"
  by (simp add: uniqueKeys_def updateMetadata_def distinct_keys_mapSet split: option.splits)

lemma uniqueKeys_insertC:
  assumes "uniqueKeys d" "insertC d u v prevId nextId md = Inr (ch, d')"
  shows "uniqueKeys d'"
proof -
  from insertC_result [OF assms(2)]
  have "characters d' = mapSet (characters d) u ch" by auto
  with assms(1) show ?thesis by (simp add: uniqueKeys_def distinct_keys_mapSet)
qed

lemma distinct_keys_fold_mapSet:
  "distinct (map fst acc) \<Longrightarrow> distinct (map fst (fold (\<lambda>(k, c) m. mapSet m k c) es acc))"
proof (induction es arbitrary: acc)
  case Nil
  then show ?case by simp
next
  case (Cons e es)
  obtain k c where e: "e = (k, c)" by (cases e)
  from Cons.prems have "distinct (map fst (mapSet acc k c))" by (rule distinct_keys_mapSet)
  from Cons.IH [OF this] e show ?case by simp
qed

lemma uniqueKeys_fromJSON: "fromJSON j s = Inr d \<Longrightarrow> uniqueKeys d"
  using distinct_keys_fold_mapSet [of "[]"]
  by (auto simp: fromJSON_def uniqueKeys_def newMap_def newDocument_def
      split: json.splits option.splits)

section \<open>Insert\<close>

lemma resolve_absent: "mapGet m k = None \<Longrightarrow> resolve m (Some k) = resolve m None"
  by (simp add: resolve_def)

lemma generatePositionBetween_total:
  assumes "prev = None \<longrightarrow> (\<forall>q. next = Some q \<longrightarrow> index q \<noteq> [])"
  shows "\<exists>pos d'. generatePositionBetween d prev next newPos = Inr (pos, d')"
proof (cases prev)
  case None
  show ?thesis
  proof (cases "next")
    case n: None
    with None show ?thesis by (simp add: stamp_eq)
  next
    case (Some q)
    with None assms obtain dg rest where "index q = dg # rest" by (cases "index q") auto
    with None Some show ?thesis by (simp add: stamp_eq)
  qed
next
  case (Some p)
  show ?thesis
  proof (cases "next")
    case None
    with Some show ?thesis by (simp add: stamp_eq)
  next
    case s: (Some q)
    with Some show ?thesis by (simp add: generatePositionBetween_digits stamp_eq)
  qed
qed

lemma resolve_index:
  assumes "\<forall>k c. mapGet m k = Some c \<longrightarrow> index (position c) \<noteq> []"
    and "resolve m cid = Some q"
  shows "index q \<noteq> []"
proof (cases cid)
  case None
  with assms(2) show ?thesis by (simp add: resolve_def)
next
  case (Some k)
  with assms(2) obtain c where "mapGet m k = Some c" "q = position c"
    by (auto simp: resolve_def split: if_splits)
  with assms(1) show ?thesis by blast
qed

text \<open>
  C8. \<open>insert\<close>: an identifier of a neighbour that the store does not hold counts as
  no neighbour, and one it holds (a non-empty string) resolves to that character's
  position; the position of the new character is what the allocator returns for the
  resolved neighbours; the character carries the identifier drawn for it, the given
  value, and metadata in which every field that the argument leaves out is false; it is
  stored under its identifier and returned, and when the identifier is new to the store
  the store grows by exactly this entry. Where every stored position has a digit,
  \<open>insert\<close> always returns a character.
\<close>

theorem insert_adds_character:
  "(mapGet (characters d) pid = None \<longrightarrow>
      insertC d u v (Some pid) nextId md = insertC d u v None nextId md) \<and>
   (mapGet (characters d) nid = None \<longrightarrow>
      insertC d u v prevId (Some nid) md = insertC d u v prevId None md) \<and>
   (mapGet (characters d) pid = Some c \<and> pid \<noteq> [] \<longrightarrow>
      resolve (characters d) (Some pid) = Some (position c)) \<and>
   (insertC d u v prevId nextId md = Inr (ch, d') \<longrightarrow>
      generatePositionBetween d
        (resolve (characters d) prevId) (resolve (characters d) nextId) [] =
        Inr (position ch, d\<lparr>clockD := clockD d + 1\<rparr>) \<and>
      idC ch = u \<and> valueC ch = v \<and>
      bold (metadata ch) = (boldP md = Given True) \<and>
      italic (metadata ch) = (italicP md = Given True) \<and>
      deleted (metadata ch) = (deletedP md = Given True) \<and>
      mapGet (characters d') u = Some ch \<and>
      (\<not> mapHas (characters d) u \<longrightarrow> characters d' = characters d @ [(u, ch)])) \<and>
   ((\<forall>k c. mapGet (characters d) k = Some c \<longrightarrow> index (position c) \<noteq> []) \<longrightarrow>
      (\<exists>ch d'. insertC d u v prevId nextId md = Inr (ch, d')))"
proof -
  have a1: "mapGet (characters d) pid = None \<longrightarrow>
      insertC d u v (Some pid) nextId md = insertC d u v None nextId md"
    by (simp add: insertC_def resolve_absent)
  have a2: "mapGet (characters d) nid = None \<longrightarrow>
      insertC d u v prevId (Some nid) md = insertC d u v prevId None md"
    by (simp add: insertC_def resolve_absent)
  have a3: "mapGet (characters d) pid = Some c \<and> pid \<noteq> [] \<longrightarrow>
      resolve (characters d) (Some pid) = Some (position c)"
    by (simp add: resolve_def)
  have a4: "insertC d u v prevId nextId md = Inr (ch, d') \<longrightarrow>
      generatePositionBetween d
        (resolve (characters d) prevId) (resolve (characters d) nextId) [] =
        Inr (position ch, d\<lparr>clockD := clockD d + 1\<rparr>) \<and>
      idC ch = u \<and> valueC ch = v \<and>
      bold (metadata ch) = (boldP md = Given True) \<and>
      italic (metadata ch) = (italicP md = Given True) \<and>
      deleted (metadata ch) = (deletedP md = Given True) \<and>
      mapGet (characters d') u = Some ch \<and>
      (\<not> mapHas (characters d) u \<longrightarrow> characters d' = characters d @ [(u, ch)])"
  proof
    assume "insertC d u v prevId nextId md = Inr (ch, d')"
    from insertC_result [OF this]
    obtain pos where g: "generatePositionBetween d
          (resolve (characters d) prevId) (resolve (characters d) nextId) [] =
          Inr (pos, d\<lparr>clockD := clockD d + 1\<rparr>)"
      and ch: "ch = \<lparr>idC = u, valueC = v, position = pos,
                     metadata = \<lparr>bold = orFalse (boldP md), italic = orFalse (italicP md),
                                 deleted = orFalse (deletedP md)\<rparr>\<rparr>"
      and d': "d' = d\<lparr>characters := mapSet (characters d) u ch, clockD := clockD d + 1\<rparr>"
      by blast
    have o: "\<And>b. orFalse b = (b = Given True)"
      by (simp add: orFalse_def split: optionalFlag.splits)
    from g ch have "generatePositionBetween d
        (resolve (characters d) prevId) (resolve (characters d) nextId) [] =
        Inr (position ch, d\<lparr>clockD := clockD d + 1\<rparr>)" by simp
    moreover from ch have "idC ch = u" "valueC ch = v"
      "bold (metadata ch) = (boldP md = Given True)"
      "italic (metadata ch) = (italicP md = Given True)"
      "deleted (metadata ch) = (deletedP md = Given True)"
      by (simp_all add: o)
    moreover from d' have "mapGet (characters d') u = Some ch" by (simp add: mapGet_mapSet)
    moreover from d' have "\<not> mapHas (characters d) u \<longrightarrow> characters d' = characters d @ [(u, ch)]"
      by (simp add: mapHas_def mapSet_absent)
    ultimately show "generatePositionBetween d
        (resolve (characters d) prevId) (resolve (characters d) nextId) [] =
        Inr (position ch, d\<lparr>clockD := clockD d + 1\<rparr>) \<and>
      idC ch = u \<and> valueC ch = v \<and>
      bold (metadata ch) = (boldP md = Given True) \<and>
      italic (metadata ch) = (italicP md = Given True) \<and>
      deleted (metadata ch) = (deletedP md = Given True) \<and>
      mapGet (characters d') u = Some ch \<and>
      (\<not> mapHas (characters d) u \<longrightarrow> characters d' = characters d @ [(u, ch)])"
      by blast
  qed
  have a5: "(\<forall>k c. mapGet (characters d) k = Some c \<longrightarrow> index (position c) \<noteq> []) \<longrightarrow>
      (\<exists>ch d'. insertC d u v prevId nextId md = Inr (ch, d'))"
  proof
    assume w: "\<forall>k c. mapGet (characters d) k = Some c \<longrightarrow> index (position c) \<noteq> []"
    have "resolve (characters d) prevId = None \<longrightarrow>
        (\<forall>q. resolve (characters d) nextId = Some q \<longrightarrow> index q \<noteq> [])"
      using resolve_index [OF w] by blast
    from generatePositionBetween_total [OF this, of d "[]"]
    obtain pos d1 where "generatePositionBetween d
        (resolve (characters d) prevId) (resolve (characters d) nextId) [] = Inr (pos, d1)"
      by blast
    then show "\<exists>ch d'. insertC d u v prevId nextId md = Inr (ch, d')"
      by (simp add: insertC_def Let_def)
  qed
  from a1 a2 a3 a4 a5 show ?thesis by blast
qed

theorem insert_adds_character_witness:
  "mapGet (characters docX) ''nope'' = None \<and>
   insertC docX ''u'' ''z'' (Some ''nope'') (Some ''x'') italicOnly =
     insertC docX ''u'' ''z'' None (Some ''x'') italicOnly \<and>
   insertC docX ''u'' ''z'' (Some ''x'') (Some ''nope'') italicOnly =
     insertC docX ''u'' ''z'' (Some ''x'') None italicOnly \<and>
   mapGet (characters docX) ''x'' = Some charX \<and>
   resolve (characters docX) (Some ''x'') = Some (position charX) \<and>
   insertC docX ''u'' ''z'' (Some ''x'') (Some ''nope'') italicOnly = Inr (charU, docXU) \<and>
   generatePositionBetween docX (Some (position charX)) None [] =
     Inr (position charU, docX\<lparr>clockD := 2\<rparr>) \<and>
   mapGet (characters docXU) ''u'' = Some charU \<and>
   \<not> mapHas (characters docX) ''u'' \<and>
   characters docXU = characters docX @ [(''u'', charU)] \<and>
   (\<exists>ch d'. insertC docX ''u'' ''z'' (Some ''nope'') (Some ''x'') italicOnly = Inr (ch, d'))"
proof -
  have n: "mapGet (characters docX) ''nope'' = None" "mapGet (characters docX) ''x'' = Some charX"
    "\<not> mapHas (characters docX) ''u''"
    by (simp_all add: mapGet_def mapHas_def docX_def)
  have r: "resolve (characters docX) (Some ''x'') = Some (position charX)"
    "resolve (characters docX) (Some ''nope'') = None"
    by (simp_all add: resolve_def mapGet_def docX_def)
  have i: "insertC docX ''u'' ''z'' (Some ''x'') (Some ''nope'') italicOnly = Inr (charU, docXU)"
    unfolding insertC_def r
    by (simp add: stamp_eq generatePositionAfter_def orFalse_def italicOnly_def docX_def
        charX_def charU_def docXU_def BASE_def Let_def)
  have w: "\<forall>k c. mapGet (characters docX) k = Some c \<longrightarrow> index (position c) \<noteq> []"
    by (simp add: mapGet_def docX_def charX_def)
  have c: "clockD docX + 1 = 2" by (simp add: docX_def)
  note t1 = insert_adds_character [where d = docX and u = "''u''" and v = "''z''"
      and pid = "''nope''" and nid = "''nope''" and prevId = "Some ''x''"
      and nextId = "Some ''x''" and md = italicOnly]
  note t2 = insert_adds_character [where d = docX and u = "''u''" and v = "''z''"
      and pid = "''x''" and c = charX and nid = "''nope''" and prevId = "Some ''x''"
      and nextId = "Some ''nope''" and md = italicOnly and ch = charU and d' = docXU]
  from t1 n have e1: "insertC docX ''u'' ''z'' (Some ''nope'') (Some ''x'') italicOnly =
      insertC docX ''u'' ''z'' None (Some ''x'') italicOnly" by blast
  from t1 n have e2: "insertC docX ''u'' ''z'' (Some ''x'') (Some ''nope'') italicOnly =
      insertC docX ''u'' ''z'' (Some ''x'') None italicOnly" by blast
  from t2 i have g: "generatePositionBetween docX
      (resolve (characters docX) (Some ''x'')) (resolve (characters docX) (Some ''nope'')) [] =
      Inr (position charU, docX\<lparr>clockD := clockD docX + 1\<rparr>)" by blast
  from t2 i n have s: "mapGet (characters docXU) ''u'' = Some charU"
    "characters docXU = characters docX @ [(''u'', charU)]" by blast+
  from t1 w have x: "\<exists>ch d'. insertC docX ''u'' ''z'' (Some ''x'') (Some ''x'') italicOnly = Inr (ch, d')"
    by blast
  from insert_adds_character [where d = docX and u = "''u''" and v = "''z''"
      and prevId = "Some ''nope''" and nextId = "Some ''x''" and md = italicOnly] w
  have y: "\<exists>ch d'. insertC docX ''u'' ''z'' (Some ''nope'') (Some ''x'') italicOnly = Inr (ch, d')"
    by blast
  from g have g': "generatePositionBetween docX (Some (position charX)) None [] =
     Inr (position charU, docX\<lparr>clockD := 2\<rparr>)" by (simp add: r c)
  from n r e1 e2 i g' s y show ?thesis by blast
qed

section \<open>Facts about sorting\<close>

lemma mset_insertSorted: "mset (insertSorted cmp x ys) = add_mset x (mset ys)"
  by (induction ys) simp_all

lemma mset_arraySort: "mset (arraySort cmp xs) = mset xs"
  by (induction xs) (simp_all add: arraySort_def mset_insertSorted)

lemma sorted_insertSorted:
  assumes total: "\<And>a b. cmp a b \<le> 0 \<or> cmp b a \<le> 0"
    and trans: "\<And>a b c. cmp a b \<le> 0 \<Longrightarrow> cmp b c \<le> 0 \<Longrightarrow> cmp a c \<le> 0"
  shows "sorted_wrt (\<lambda>a b. cmp a b \<le> 0) ys \<Longrightarrow>
         sorted_wrt (\<lambda>a b. cmp a b \<le> 0) (insertSorted cmp x ys)"
proof (induction ys)
  case Nil
  show ?case by simp
next
  case (Cons y ys)
  from Cons.prems have s: "sorted_wrt (\<lambda>a b. cmp a b \<le> 0) ys"
    and h: "\<forall>z \<in> set ys. cmp y z \<le> 0" by simp_all
  show ?case
  proof (cases "cmp x y \<le> 0")
    case True
    with h trans have "\<forall>z \<in> set ys. cmp x z \<le> 0" by blast
    with True s h show ?thesis by simp
  next
    case False
    with total [of x y] have "cmp y x \<le> 0" by simp
    with False h Cons.IH [OF s] show ?thesis by (simp add: set_insertSorted)
  qed
qed

lemma sorted_arraySort:
  assumes total: "\<And>a b. cmp a b \<le> 0 \<or> cmp b a \<le> 0"
    and trans: "\<And>a b c. cmp a b \<le> 0 \<Longrightarrow> cmp b c \<le> 0 \<Longrightarrow> cmp a c \<le> 0"
  shows "sorted_wrt (\<lambda>a b. cmp a b \<le> 0) (arraySort cmp xs)"
proof (induction xs)
  case Nil
  show ?case by (simp add: arraySort_def)
next
  case (Cons x xs)
  have "arraySort cmp (x # xs) = insertSorted cmp x (arraySort cmp xs)"
    by (simp add: arraySort_def)
  with sorted_insertSorted [of cmp, OF total trans Cons.IH] show ?case by simp
qed

lemma sorted_wrt_unique:
  assumes "sorted_wrt le xs" "sorted_wrt le ys" "mset xs = mset ys"
    and "\<And>a b. a \<in> set xs \<Longrightarrow> b \<in> set xs \<Longrightarrow> le a b \<Longrightarrow> le b a \<Longrightarrow> a = b"
  shows "xs = ys"
  using assms
proof (induction xs arbitrary: ys)
  case Nil
  then show ?case by simp
next
  case (Cons x xs)
  from Cons.prems(3) obtain y ys' where ys: "ys = y # ys'" by (cases ys) auto
  have sets: "set (x # xs) = set ys" using Cons.prems(3) by (rule mset_eq_setD)
  have xy: "x = y"
  proof (rule ccontr)
    assume ne: "x \<noteq> y"
    from sets ys ne have "y \<in> set xs" by auto
    with Cons.prems(1) have l1: "le x y" by simp
    from sets ys ne have "x \<in> set ys'" by auto
    with Cons.prems(2) ys have l2: "le y x" by simp
    from sets ys have "y \<in> set (x # xs)" by auto
    with Cons.prems(4) [of x y] l1 l2 ne show False by simp
  qed
  with Cons.prems(3) ys have m: "mset xs = mset ys'" by simp
  from Cons.prems(1) have s1: "sorted_wrt le xs" by simp
  from Cons.prems(2) ys have s2: "sorted_wrt le ys'" by simp
  have "xs = ys'"
  proof (rule Cons.IH [OF s1 s2 m])
    fix a b assume "a \<in> set xs" "b \<in> set xs" "le a b" "le b a"
    with Cons.prems(4) [of a b] show "a = b" by simp
  qed
  with xy ys show ?case by simp
qed

lemma specLess_negtrans:
  assumes "lexical lc" "\<not> specLess lc a b" "\<not> specLess lc b c"
  shows "\<not> specLess lc a c"
proof
  assume ac: "specLess lc a c"
  show False
  proof (cases "a = b")
    case True
    with ac assms(3) show False by simp
  next
    case False
    with specLess_total [OF assms(1)] assms(2) have "specLess lc b a" by blast
    with ac specLess_trans [OF assms(1)] have "specLess lc b c" by blast
    with assms(3) show False by simp
  qed
qed

lemma comparePositions_le:
  assumes "lexical lc"
  shows "comparePositions lc a b \<le> 0 \<longleftrightarrow> \<not> specLess lc b a"
proof -
  have "comparePositions lc a b \<le> 0 \<longleftrightarrow> \<not> 0 < comparePositions lc a b" by linarith
  then show ?thesis by (simp only: comparePositions_pos [OF assms])
qed

lemma comparePositions_le_total:
  assumes "lexical lc"
  shows "comparePositions lc a b \<le> 0 \<or> comparePositions lc b a \<le> 0"
  using specLess_asym [OF assms, of a b] by (auto simp: comparePositions_le [OF assms])

lemma comparePositions_le_trans:
  assumes "lexical lc" "comparePositions lc a b \<le> 0" "comparePositions lc b c \<le> 0"
  shows "comparePositions lc a c \<le> 0"
  using assms(2,3) specLess_negtrans [OF assms(1), of c b a]
  by (simp add: comparePositions_le [OF assms(1)])

lemma comparePositions_le_antisym:
  assumes "lexical lc" "comparePositions lc a b \<le> 0" "comparePositions lc b a \<le> 0"
  shows "a = b"
proof (rule ccontr)
  assume "a \<noteq> b"
  from specLess_total [OF assms(1) this] assms(2,3) show False
    by (simp add: comparePositions_le [OF assms(1)])
qed

lemma getText_cong:
  assumes "lexical lc"
    and "mset (map snd (characters D1)) = mset (map snd (characters D2))"
    and "\<And>a b. a \<in> snd ` set (characters D1) \<Longrightarrow> b \<in> snd ` set (characters D1) \<Longrightarrow>
           position a = position b \<Longrightarrow> a = b"
  shows "getText lc D1 = getText lc D2"
proof -
  let ?live = "\<lambda>D. filter (\<lambda>char. \<not> deleted (metadata char)) (map snd (characters D))"
  let ?le = "\<lambda>a b. byPosition lc a b \<le> 0"
  have total: "\<And>a b. byPosition lc a b \<le> 0 \<or> byPosition lc b a \<le> 0"
    by (simp add: byPosition_def comparePositions_le_total [OF assms(1)])
  have trans: "\<And>a b c. byPosition lc a b \<le> 0 \<Longrightarrow> byPosition lc b c \<le> 0 \<Longrightarrow>
      byPosition lc a c \<le> 0"
    unfolding byPosition_def by (rule comparePositions_le_trans [OF assms(1)])
  have s1: "sorted_wrt ?le (arraySort (byPosition lc) (?live D1))"
    by (rule sorted_arraySort [of "byPosition lc", OF total trans])
  have s2: "sorted_wrt ?le (arraySort (byPosition lc) (?live D2))"
    by (rule sorted_arraySort [of "byPosition lc", OF total trans])
  have "mset (?live D1) = mset (?live D2)"
    using assms(2) by (simp only: mset_filter)
  then have m: "mset (arraySort (byPosition lc) (?live D1)) =
      mset (arraySort (byPosition lc) (?live D2))"
    by (simp add: mset_arraySort)
  have "arraySort (byPosition lc) (?live D1) = arraySort (byPosition lc) (?live D2)"
  proof (rule sorted_wrt_unique [OF s1 s2 m])
    fix a b
    assume a: "a \<in> set (arraySort (byPosition lc) (?live D1))"
      and b: "b \<in> set (arraySort (byPosition lc) (?live D1))"
      and l: "byPosition lc a b \<le> 0" "byPosition lc b a \<le> 0"
    from a b have "a \<in> snd ` set (characters D1)" "b \<in> snd ` set (characters D1)"
      by (auto simp: set_arraySort)
    moreover from l have "position a = position b"
      unfolding byPosition_def by (rule comparePositions_le_antisym [OF assms(1)])
    ultimately show "a = b" by (rule assms(3))
  qed
  then show ?thesis by (simp add: getText_def)
qed

section \<open>Merge as a join\<close>

lemma alist_rebuild:
  "distinct (map fst xs) \<Longrightarrow> xs = map (\<lambda>k. (k, the (map_of xs k))) (map fst xs)"
proof (induction xs)
  case Nil
  show ?case by simp
next
  case (Cons e xs)
  obtain k v where e: "e = (k, v)" by (cases e)
  from Cons.prems e have n: "k \<notin> set (map fst xs)" and d: "distinct (map fst xs)" by simp_all
  have "map (\<lambda>k'. (k', the (map_of (e # xs) k'))) (map fst xs) =
        map (\<lambda>k'. (k', the (map_of xs k'))) (map fst xs)"
    using n e by (intro map_cong) auto
  with Cons.IH [OF d] e show ?case by simp
qed

lemma alist_eqI:
  assumes "distinct (map fst xs)" "map fst xs = map fst ys" "map_of xs = map_of ys"
  shows "xs = ys"
proof -
  from assms(1,2) have "distinct (map fst ys)" by simp
  from alist_rebuild [OF this] alist_rebuild [OF assms(1)] assms(2,3) show ?thesis by simp
qed

lemma pick_cases: "pick lc x y = x \<or> pick lc x y = y"
  by (cases x; cases y) simp_all

lemma pick_Some:
  "lexical lc \<Longrightarrow>
     pick lc (Some l) (Some r) =
       (if specLess lc (position l) (position r) then Some r else Some l)"
  by (simp add: comparePositions_pos)

lemma pick_idem: "pick lc x x = x"
  by (cases x) (simp_all add: comparePositions_same)

lemma pick_assoc:
  assumes "lexical lc"
  shows "pick lc (pick lc x y) z = pick lc x (pick lc y z)"
proof (cases x)
  case None
  then show ?thesis by simp
next
  case (Some l)
  show ?thesis
  proof (cases y)
    case None
    with Some show ?thesis by (cases z) simp_all
  next
    case y: (Some m)
    show ?thesis
    proof (cases z)
      case None
      with Some y show ?thesis by (simp add: pick_None_right)
    next
      case z: (Some r)
      note t = specLess_trans [OF assms, of "position l" "position m" "position r"]
      note n = specLess_negtrans [OF assms, of "position l" "position m" "position r"]
      show ?thesis
      proof (cases "specLess lc (position l) (position m)")
        case lm: True
        show ?thesis
        proof (cases "specLess lc (position m) (position r)")
          case True
          with lm t Some y z show ?thesis by (simp add: pick_Some [OF assms] del: pick.simps(3))
        next
          case False
          with lm Some y z show ?thesis by (simp add: pick_Some [OF assms] del: pick.simps(3))
        qed
      next
        case lm: False
        show ?thesis
        proof (cases "specLess lc (position m) (position r)")
          case True
          with lm Some y z show ?thesis by (simp add: pick_Some [OF assms] del: pick.simps(3))
        next
          case False
          with lm n Some y z show ?thesis by (simp add: pick_Some [OF assms] del: pick.simps(3))
        qed
      qed
    qed
  qed
qed

lemma pick_commute:
  assumes "lexical lc"
    and "\<And>l r. x = Some l \<Longrightarrow> y = Some r \<Longrightarrow> position l = position r \<Longrightarrow> l = r"
  shows "pick lc x y = pick lc y x"
proof (cases x)
  case None
  then show ?thesis by (simp add: pick_None_right)
next
  case (Some l)
  show ?thesis
  proof (cases y)
    case None
    with Some show ?thesis by simp
  next
    case y: (Some r)
    show ?thesis
    proof (cases "position l = position r")
      case True
      with assms(2) [OF Some y] Some y show ?thesis by simp
    next
      case False
      with specLess_total [OF assms(1), of "position l" "position r"]
      consider (lr) "specLess lc (position l) (position r)"
        | (rl) "specLess lc (position r) (position l)" by blast
      then show ?thesis
      proof cases
        case lr
        with specLess_asym [OF assms(1) lr] Some y show ?thesis
          by (simp add: pick_Some [OF assms(1)] del: pick.simps(3))
      next
        case rl
        with specLess_asym [OF assms(1) rl] Some y show ?thesis
          by (simp add: pick_Some [OF assms(1)] del: pick.simps(3))
      qed
    qed
  qed
qed

lemma keys_assoc_tail:
  "filter (\<lambda>k. k \<notin> set (xs @ filter (\<lambda>k. k \<notin> set xs) ys)) zs =
   filter (\<lambda>k. k \<notin> set xs) (filter (\<lambda>k. k \<notin> set ys) zs)"
  by (induction zs) auto

lemma keys_assoc:
  "(xs @ filter (\<lambda>k. k \<notin> set xs) ys) @
     filter (\<lambda>k. k \<notin> set (xs @ filter (\<lambda>k. k \<notin> set xs) ys)) zs =
   xs @ filter (\<lambda>k. k \<notin> set xs) (ys @ filter (\<lambda>k. k \<notin> set ys) zs)"
  by (simp only: keys_assoc_tail filter_append append_assoc)

lemma merge_assoc:
  assumes "lexical lc" "uniqueKeys A" "uniqueKeys B" "uniqueKeys C"
  shows "merge lc (merge lc A B) C = merge lc A (merge lc B C)"
proof -
  let ?L = "characters (merge lc (merge lc A B) C)"
  let ?R = "characters (merge lc A (merge lc B C))"
  note uAB = uniqueKeys_merge [OF assms(2,3), of lc]
  note uBC = uniqueKeys_merge [OF assms(3,4), of lc]
  have d: "distinct (map fst ?L)"
    using uniqueKeys_merge [OF uAB assms(4), of lc] by (simp add: uniqueKeys_def)
  have k: "map fst ?L = map fst ?R"
    by (simp only: keys_merge [OF assms(4)] keys_merge [OF assms(3)] keys_merge [OF uBC]
        keys_assoc)
  have "\<And>x. mapGet ?L x = mapGet ?R x"
    by (simp add: mapGet_merge [OF assms(4)] mapGet_merge [OF assms(3)] mapGet_merge [OF uBC]
        pick_assoc [OF assms(1)])
  then have m: "map_of ?L = map_of ?R" by (simp add: mapGet_def fun_eq_iff)
  from alist_eqI [OF d k m] show ?thesis by (simp add: merge_def)
qed

lemma merge_idem:
  assumes "uniqueKeys A"
  shows "merge lc A A = A"
proof -
  have d: "distinct (map fst (characters (merge lc A A)))"
    using uniqueKeys_merge [OF assms assms, of lc] by (simp add: uniqueKeys_def)
  have k: "map fst (characters (merge lc A A)) = map fst (characters A)"
    by (simp add: keys_merge [OF assms])
  have "\<And>x. mapGet (characters (merge lc A A)) x = mapGet (characters A) x"
    by (simp add: mapGet_merge [OF assms] pick_idem)
  then have "map_of (characters (merge lc A A)) = map_of (characters A)"
    by (simp add: mapGet_def fun_eq_iff)
  from alist_eqI [OF d k this] show ?thesis by (simp add: merge_def)
qed

lemma values_merge:
  assumes "uniqueKeys A" "uniqueKeys B"
  shows "snd ` set (characters (merge lc A B)) \<subseteq>
         snd ` set (characters A) \<union> snd ` set (characters B)"
proof
  fix c assume "c \<in> snd ` set (characters (merge lc A B))"
  then obtain k where kc: "(k, c) \<in> set (characters (merge lc A B))" by auto
  have "distinct (map fst (characters (merge lc A B)))"
    using uniqueKeys_merge [OF assms, of lc] by (simp add: uniqueKeys_def)
  with kc have "mapGet (characters (merge lc A B)) k = Some c" by (simp add: mapGet_def)
  then have p: "pick lc (mapGet (characters A) k) (mapGet (characters B) k) = Some c"
    by (simp add: mapGet_merge [OF assms(2)])
  from pick_cases [of lc "mapGet (characters A) k" "mapGet (characters B) k"] p
  have "map_of (characters A) k = Some c \<or> map_of (characters B) k = Some c"
    by (auto simp: mapGet_def)
  then have "(k, c) \<in> set (characters A) \<or> (k, c) \<in> set (characters B)"
    using map_of_SomeD by fast
  then show "c \<in> snd ` set (characters A) \<union> snd ` set (characters B)" by force
qed

lemma merge_commute_getText:
  assumes "lexical lc" "uniqueKeys A" "uniqueKeys B" "onePerPosition A B"
  shows "getText lc (merge lc A B) = getText lc (merge lc B A)"
proof -
  let ?L = "characters (merge lc A B)"
  let ?R = "characters (merge lc B A)"
  let ?V = "snd ` set (characters A) \<union> snd ` set (characters B)"
  have one: "\<And>a b. a \<in> ?V \<Longrightarrow> b \<in> ?V \<Longrightarrow> position a = position b \<Longrightarrow> a = b"
  proof -
    fix a b assume a: "a \<in> ?V" and b: "b \<in> ?V" and p: "position a = position b"
    from a have a': "a \<in> set (map snd (characters A @ characters B))" by auto
    from b have b': "b \<in> set (map snd (characters A @ characters B))" by auto
    from assms(4) a' b' p show "a = b" unfolding onePerPosition_def by blast
  qed
  have dL: "distinct (map fst ?L)"
    using uniqueKeys_merge [OF assms(2,3), of lc] by (simp add: uniqueKeys_def)
  have dR: "distinct (map fst ?R)"
    using uniqueKeys_merge [OF assms(3,2), of lc] by (simp add: uniqueKeys_def)
  have "\<And>k. mapGet ?L k = mapGet ?R k"
  proof -
    fix k
    have "pick lc (mapGet (characters A) k) (mapGet (characters B) k) =
          pick lc (mapGet (characters B) k) (mapGet (characters A) k)"
    proof (rule pick_commute [OF assms(1)])
      fix l r
      assume l: "mapGet (characters A) k = Some l" and r: "mapGet (characters B) k = Some r"
        and p: "position l = position r"
      from l have "(k, l) \<in> set (characters A)" by (simp add: mapGet_def map_of_SomeD)
      then have "snd (k, l) \<in> snd ` set (characters A)" by (rule imageI)
      then have lv: "l \<in> ?V" by simp
      from r have "(k, r) \<in> set (characters B)" by (simp add: mapGet_def map_of_SomeD)
      then have "snd (k, r) \<in> snd ` set (characters B)" by (rule imageI)
      then have rv: "r \<in> ?V" by simp
      from lv rv p show "l = r" by (rule one)
    qed
    then show "mapGet ?L k = mapGet ?R k"
      by (simp only: mapGet_merge [OF assms(3)] mapGet_merge [OF assms(2)])
  qed
  then have "map_of ?L = map_of ?R" by (simp add: mapGet_def fun_eq_iff)
  then have sLR: "set ?L = set ?R" by (simp only: map_of_inject_set [OF dL dR])
  from dL have dl: "distinct ?L" by (simp only: distinct_map)
  from dR have dr: "distinct ?R" by (simp only: distinct_map)
  from sLR have "mset ?L = mset ?R" by (rule iffD1 [OF set_eq_iff_mset_eq_distinct [OF dl dr]])
  then have "image_mset snd (mset ?L) = image_mset snd (mset ?R)" by (rule arg_cong)
  then have m: "mset (map snd ?L) = mset (map snd ?R)" by (simp only: mset_map)
  show ?thesis
  proof (rule getText_cong [OF assms(1) m])
    fix a b
    assume a: "a \<in> snd ` set ?L" and b: "b \<in> snd ` set ?L" and p: "position a = position b"
    from a values_merge [OF assms(2,3), of lc] have av: "a \<in> ?V" by (rule subsetD [rotated])
    from b values_merge [OF assms(2,3), of lc] have bv: "b \<in> ?V" by (rule subsetD [rotated])
    from av bv p show "a = b" by (rule one)
  qed
qed

section \<open>Breaking the collation's ties\<close>

lemma lexical_tieBreak:
  assumes "consistent lc"
  shows "lexical (tieBreak lc)"
proof -
  note zs = consistent_zero_sym [OF assms]
  note zt = consistent_zero_trans [OF assms]
  note tr = consistent_trans [OF assms]
  note ps = consistent_pos [OF assms]
  have z: "\<And>a b. (tieBreak lc a b = 0) = (a = b)"
    using consistent_refl [OF assms] by (auto simp: tieBreak_def codeUnitCompare_zero)
  have s: "\<And>a b. (tieBreak lc a b < 0) = (0 < tieBreak lc b a)"
  proof -
    fix a b
    show "(tieBreak lc a b < 0) = (0 < tieBreak lc b a)"
    proof (cases "lc a b = 0")
      case True
      with zs [of a b] have "lc b a = 0" by simp
      with True show ?thesis using codeUnitCompare_sym [of a b] by (simp add: tieBreak_def)
    next
      case False
      with zs [of b a] have "lc b a \<noteq> 0" by blast
      with False ps [of b a] show ?thesis by (simp add: tieBreak_def)
    qed
  qed
  have t: "\<And>a b c. tieBreak lc a b < 0 \<and> tieBreak lc b c < 0 \<longrightarrow> tieBreak lc a c < 0"
  proof
    fix a b c
    assume h: "tieBreak lc a b < 0 \<and> tieBreak lc b c < 0"
    show "tieBreak lc a c < 0"
    proof (cases "lc a b = 0")
      case ab: True
      with h have cab: "codeUnitCompare a b < 0" by (simp add: tieBreak_def)
      show ?thesis
      proof (cases "lc b c = 0")
        case True
        with h have "codeUnitCompare b c < 0" by (simp add: tieBreak_def)
        with cab have "codeUnitCompare a c < 0" by (rule codeUnitCompare_trans)
        moreover from ab True have "lc a c = 0" by (rule zt)
        ultimately show ?thesis by (simp add: tieBreak_def)
      next
        case False
        with h have bc: "lc b c < 0" by (simp add: tieBreak_def)
        from ab have ba: "lc b a = 0" by (rule zs)
        have n0: "lc a c \<noteq> 0"
        proof
          assume "lc a c = 0"
          with ba have "lc b c = 0" by (rule zt)
          with bc show False by simp
        qed
        have "\<not> 0 < lc a c"
        proof
          assume "0 < lc a c"
          then have "lc c a < 0" by (simp add: ps)
          with bc have "lc b a < 0" by (rule tr)
          with ba show False by simp
        qed
        with n0 have "lc a c < 0" by linarith
        then show ?thesis by (simp add: tieBreak_def)
      qed
    next
      case ab: False
      with h have lab: "lc a b < 0" by (simp add: tieBreak_def)
      show ?thesis
      proof (cases "lc b c = 0")
        case True
        then have cb: "lc c b = 0" by (rule zs)
        have n0: "lc a c \<noteq> 0"
        proof
          assume "lc a c = 0"
          from this cb have "lc a b = 0" by (rule zt)
          with ab show False by simp
        qed
        have "\<not> 0 < lc a c"
        proof
          assume "0 < lc a c"
          then have "lc c a < 0" by (simp add: ps)
          from this lab have "lc c b < 0" by (rule tr)
          with cb show False by simp
        qed
        with n0 have "lc a c < 0" by linarith
        then show ?thesis by (simp add: tieBreak_def)
      next
        case False
        with h have "lc b c < 0" by (simp add: tieBreak_def)
        with lab have "lc a c < 0" by (rule tr)
        then show ?thesis by (simp add: tieBreak_def)
      qed
    qed
  qed
  from z s t show ?thesis unfolding lexical_def by blast
qed

lemma comparePositions_tieBreak:
  assumes "lc (site p) (site q) = 0 \<longrightarrow> site p = site q"
  shows "comparePositions (tieBreak lc) p q = comparePositions lc p q"
proof (cases "site p = site q")
  case True
  then show ?thesis by (simp add: comparePositions_cmpIndex)
next
  case False
  with assms have "lc (site p) (site q) \<noteq> 0" by blast
  then show ?thesis by (simp add: comparePositions_cmpIndex tieBreak_def)
qed

lemma separated_pair:
  "separated lc S \<Longrightarrow> a \<in> S \<Longrightarrow> b \<in> S \<Longrightarrow>
     comparePositions (tieBreak lc) (position a) (position b) =
     comparePositions lc (position a) (position b)"
  unfolding separated_def by (intro comparePositions_tieBreak) blast

lemma separated_subset: "separated lc S \<Longrightarrow> T \<subseteq> S \<Longrightarrow> separated lc T"
  unfolding separated_def by blast

lemma pick_tieBreak:
  assumes "separated lc S"
    and "\<And>l. x = Some l \<Longrightarrow> l \<in> S" "\<And>r. y = Some r \<Longrightarrow> r \<in> S"
  shows "pick (tieBreak lc) x y = pick lc x y"
proof (cases x)
  case None
  then show ?thesis by simp
next
  case (Some l)
  show ?thesis
  proof (cases y)
    case None
    with Some show ?thesis by simp
  next
    case y: (Some r)
    from assms(2) [OF Some] assms(3) [OF y]
    have "comparePositions (tieBreak lc) (position r) (position l) =
          comparePositions lc (position r) (position l)"
      using separated_pair [OF assms(1)] by blast
    with Some y show ?thesis by simp
  qed
qed

lemma insertSorted_cong:
  "\<forall>b \<in> set ys. cmp x b = cmp' x b \<Longrightarrow> insertSorted cmp x ys = insertSorted cmp' x ys"
  by (induction ys) simp_all

lemma arraySort_cong:
  "\<forall>a \<in> set xs. \<forall>b \<in> set xs. cmp a b = cmp' a b \<Longrightarrow> arraySort cmp xs = arraySort cmp' xs"
proof (induction xs)
  case Nil
  show ?case by (simp add: arraySort_def)
next
  case (Cons x xs)
  from Cons.prems have "\<forall>a \<in> set xs. \<forall>b \<in> set xs. cmp a b = cmp' a b" by simp
  from Cons.IH [OF this] have e: "arraySort cmp xs = arraySort cmp' xs" .
  from Cons.prems have "\<forall>b \<in> set (arraySort cmp' xs). cmp x b = cmp' x b"
    by (simp add: set_arraySort)
  then have "insertSorted cmp x (arraySort cmp' xs) = insertSorted cmp' x (arraySort cmp' xs)"
    by (rule insertSorted_cong)
  with e show ?case by (simp add: arraySort_def)
qed

lemma getText_tieBreak:
  assumes "separated lc (snd ` set (characters D))"
  shows "getText (tieBreak lc) D = getText lc D"
proof -
  let ?live = "filter (\<lambda>char. \<not> deleted (metadata char)) (map snd (characters D))"
  have "\<forall>a \<in> set ?live. \<forall>b \<in> set ?live.
      byPosition (tieBreak lc) a b = byPosition lc a b"
  proof (intro ballI)
    fix a b assume "a \<in> set ?live" "b \<in> set ?live"
    then have "a \<in> snd ` set (characters D)" "b \<in> snd ` set (characters D)" by auto
    with separated_pair [OF assms] show "byPosition (tieBreak lc) a b = byPosition lc a b"
      by (simp add: byPosition_def)
  qed
  then have "arraySort (byPosition (tieBreak lc)) ?live = arraySort (byPosition lc) ?live"
    by (rule arraySort_cong)
  then show ?thesis by (simp add: getText_def)
qed

lemma merge_tieBreak:
  assumes "uniqueKeys A" "uniqueKeys B"
    and "separated lc (snd ` set (characters A) \<union> snd ` set (characters B))"
  shows "merge (tieBreak lc) A B = merge lc A B"
proof -
  let ?S = "snd ` set (characters A) \<union> snd ` set (characters B)"
  let ?L = "characters (merge (tieBreak lc) A B)"
  let ?R = "characters (merge lc A B)"
  have d: "distinct (map fst ?L)"
    using uniqueKeys_merge [OF assms(1,2), of "tieBreak lc"] by (simp add: uniqueKeys_def)
  have k: "map fst ?L = map fst ?R" by (simp add: keys_merge [OF assms(2)])
  have "\<And>x. mapGet ?L x = mapGet ?R x"
  proof -
    fix x
    have "pick (tieBreak lc) (mapGet (characters A) x) (mapGet (characters B) x) =
          pick lc (mapGet (characters A) x) (mapGet (characters B) x)"
    proof (rule pick_tieBreak [OF assms(3)])
      fix l assume "mapGet (characters A) x = Some l"
      then have "(x, l) \<in> set (characters A)" by (simp add: mapGet_def map_of_SomeD)
      then have "snd (x, l) \<in> snd ` set (characters A)" by (rule imageI)
      then show "l \<in> ?S" by simp
    next
      fix r assume "mapGet (characters B) x = Some r"
      then have "(x, r) \<in> set (characters B)" by (simp add: mapGet_def map_of_SomeD)
      then have "snd (x, r) \<in> snd ` set (characters B)" by (rule imageI)
      then show "r \<in> ?S" by simp
    qed
    then show "mapGet ?L x = mapGet ?R x" by (simp only: mapGet_merge [OF assms(2)])
  qed
  then have m: "map_of ?L = map_of ?R" by (simp add: mapGet_def fun_eq_iff)
  from alist_eqI [OF d k m] show ?thesis by (simp add: merge_def)
qed

text \<open>
  Without separated site identifiers the rendering of a merge depends on its direction:
  two characters whose positions tie under the collation stay in the order of the map,
  receiver first.
\<close>

lemma merge_collation_tie_example:
  "uniqueKeys docP \<and> uniqueKeys docQ \<and> onePerPosition docP docQ \<and>
   consistent ignoringCompare \<and> \<not> sitesSeparated ignoringCompare [docP, docQ] \<and>
   getText ignoringCompare (merge ignoringCompare docP docQ) = [charP, charQ] \<and>
   getText ignoringCompare (merge ignoringCompare docQ docP) = [charQ, charP]"
proof -
  have u: "uniqueKeys docP \<and> uniqueKeys docQ"
    by (simp add: uniqueKeys_def docP_def docQ_def)
  have o: "onePerPosition docP docQ"
    by (simp add: onePerPosition_def docP_def docQ_def charP_def charQ_def posIgnA_def
        posIgnB_def)
  have n: "\<not> sitesSeparated ignoringCompare [docP, docQ]"
    by (simp add: sitesSeparated_def separated_def ignoringCompare_def docP_def docQ_def
        charP_def charQ_def posIgnA_def posIgnB_def)
  have m1: "characters (merge ignoringCompare docP docQ) = [(''p'', charP), (''q'', charQ)]"
    by (simp add: merge_def mergeStep_def mapHas_def mapGet_def docP_def docQ_def)
  have m2: "characters (merge ignoringCompare docQ docP) = [(''q'', charQ), (''p'', charP)]"
    by (simp add: merge_def mergeStep_def mapHas_def mapGet_def docP_def docQ_def)
  have z: "byPosition ignoringCompare charP charQ = 0 \<and>
      byPosition ignoringCompare charQ charP = 0"
    by (simp add: byPosition_def comparePositions_def ignoringCompare_def charP_def charQ_def
        posIgnA_def posIgnB_def)
  have d: "\<not> deleted (metadata charP) \<and> \<not> deleted (metadata charQ)"
    by (simp add: charP_def charQ_def)
  have g1: "getText ignoringCompare (merge ignoringCompare docP docQ) = [charP, charQ]"
    by (simp add: getText_def arraySort_def m1 z d)
  have g2: "getText ignoringCompare (merge ignoringCompare docQ docP) = [charQ, charP]"
    by (simp add: getText_def arraySort_def m2 z d)
  from u o consistent_ignoringCompare n g1 g2 show ?thesis by blast
qed

text \<open>
  C2, as stated, fails for commutativity: \<open>docX\<close> holds a character live, \<open>docY\<close>
  holds it deleted at the same position; each merge keeps the receiver's copy, so one
  direction renders the character and the other renders nothing.
\<close>

theorem merge_not_commutative_counterexample:
  "getText codeUnitCompare (merge codeUnitCompare docX docY) = [charX] \<and>
   getText codeUnitCompare (merge codeUnitCompare docY docX) = [] \<and>
   getText codeUnitCompare (merge codeUnitCompare docX docY) \<noteq>
   getText codeUnitCompare (merge codeUnitCompare docY docX)"
  by (simp add: merge_docX_docY merge_docY_docX getText_docX getText_docY)

text \<open>
  C2, amended. \<open>merge(A, A)\<close> is \<open>A\<close> for every store. With \<open>localeCompare\<close> a
  consistent comparator and stores \<open>A\<close>, \<open>B\<close>, \<open>C\<close> whose characters carry site
  identifiers that collate as equal only when they are the same string, \<open>merge\<close> is
  associative on the stores themselves, hence on \<open>getText()\<close>, and it is commutative
  on \<open>getText()\<close> when, in addition, any two characters of \<open>A\<close> and \<open>B\<close> that have
  the same position are the same character.
\<close>

theorem merge_semilattice:
  assumes "uniqueKeys A" "uniqueKeys B" "uniqueKeys C"
  shows "merge lc A A = A \<and>
         getText lc (merge lc A A) = getText lc A \<and>
         (consistent lc \<and> sitesSeparated lc [A, B, C] \<longrightarrow>
            merge lc (merge lc A B) C = merge lc A (merge lc B C) \<and>
            getText lc (merge lc (merge lc A B) C) = getText lc (merge lc A (merge lc B C))) \<and>
         (consistent lc \<and> sitesSeparated lc [A, B] \<and> onePerPosition A B \<longrightarrow>
            getText lc (merge lc A B) = getText lc (merge lc B A))"
proof -
  let ?vA = "snd ` set (characters A)"
  let ?vB = "snd ` set (characters B)"
  let ?vC = "snd ` set (characters C)"
  let ?tb = "tieBreak lc"
  have i: "merge lc A A = A"
    using assms(1) by (rule merge_idem)
  have a: "consistent lc \<and> sitesSeparated lc [A, B, C] \<longrightarrow>
      merge lc (merge lc A B) C = merge lc A (merge lc B C)"
  proof
    assume h: "consistent lc \<and> sitesSeparated lc [A, B, C]"
    then have lx: "lexical ?tb" using lexical_tieBreak by blast
    from h have sp: "separated lc (?vA \<union> ?vB \<union> ?vC)"
      by (simp add: sitesSeparated_def Un_assoc)
    have sAB: "separated lc (?vA \<union> ?vB)"
      by (rule separated_subset [OF sp]) blast
    have sBC: "separated lc (?vB \<union> ?vC)"
      by (rule separated_subset [OF sp]) blast
    have eAB: "merge ?tb A B = merge lc A B"
      using assms(1,2) sAB by (rule merge_tieBreak)
    have eBC: "merge ?tb B C = merge lc B C"
      using assms(2,3) sBC by (rule merge_tieBreak)
    note uAB = uniqueKeys_merge [OF assms(1,2), of lc]
    note uBC = uniqueKeys_merge [OF assms(2,3), of lc]
    have "separated lc (snd ` set (characters (merge lc A B)) \<union> ?vC)"
      using values_merge [OF assms(1,2), of lc] by (intro separated_subset [OF sp]) blast
    with uAB assms(3) have e1: "merge ?tb (merge lc A B) C = merge lc (merge lc A B) C"
      by (rule merge_tieBreak)
    have "separated lc (?vA \<union> snd ` set (characters (merge lc B C)))"
      using values_merge [OF assms(2,3), of lc] by (intro separated_subset [OF sp]) blast
    with assms(1) uBC have e2: "merge ?tb A (merge lc B C) = merge lc A (merge lc B C)"
      by (rule merge_tieBreak)
    have "merge ?tb (merge ?tb A B) C = merge ?tb A (merge ?tb B C)"
      using lx assms by (rule merge_assoc)
    then show "merge lc (merge lc A B) C = merge lc A (merge lc B C)"
      by (simp only: eAB eBC e1 e2)
  qed
  have c: "consistent lc \<and> sitesSeparated lc [A, B] \<and> onePerPosition A B \<longrightarrow>
      getText lc (merge lc A B) = getText lc (merge lc B A)"
  proof
    assume h: "consistent lc \<and> sitesSeparated lc [A, B] \<and> onePerPosition A B"
    then have lx: "lexical ?tb" using lexical_tieBreak by blast
    from h have sAB: "separated lc (?vA \<union> ?vB)" by (simp add: sitesSeparated_def)
    then have sBA: "separated lc (?vB \<union> ?vA)" by (simp add: Un_commute)
    from h have o: "onePerPosition A B" by blast
    have eAB: "merge ?tb A B = merge lc A B"
      using assms(1,2) sAB by (rule merge_tieBreak)
    have eBA: "merge ?tb B A = merge lc B A"
      using assms(2,1) sBA by (rule merge_tieBreak)
    have "separated lc (snd ` set (characters (merge lc A B)))"
      using values_merge [OF assms(1,2), of lc] by (rule separated_subset [OF sAB])
    then have gAB: "getText ?tb (merge lc A B) = getText lc (merge lc A B)"
      by (rule getText_tieBreak)
    have "separated lc (snd ` set (characters (merge lc B A)))"
      using values_merge [OF assms(2,1), of lc] by (rule separated_subset [OF sBA])
    then have gBA: "getText ?tb (merge lc B A) = getText lc (merge lc B A)"
      by (rule getText_tieBreak)
    have "getText ?tb (merge ?tb A B) = getText ?tb (merge ?tb B A)"
      using lx assms(1,2) o by (rule merge_commute_getText)
    then show "getText lc (merge lc A B) = getText lc (merge lc B A)"
      by (simp only: eAB eBA gAB gBA)
  qed
  from i a c show ?thesis by simp
qed

theorem merge_semilattice_witness:
  "uniqueKeys docX \<and> uniqueKeys docZ \<and> uniqueKeys docAA \<and>
   consistent ignoringCompare \<and> sitesSeparated ignoringCompare [docX, docZ, docAA] \<and>
   sitesSeparated ignoringCompare [docX, docZ] \<and> onePerPosition docX docZ \<and>
   merge ignoringCompare (merge ignoringCompare docX docZ) docAA =
     merge ignoringCompare docX (merge ignoringCompare docZ docAA) \<and>
   merge ignoringCompare docX docX = docX \<and>
   getText ignoringCompare (merge ignoringCompare docX docZ) =
     getText ignoringCompare (merge ignoringCompare docZ docX) \<and>
   getText ignoringCompare (merge ignoringCompare docX docZ) = [charXfar] \<and>
   getText ignoringCompare (merge ignoringCompare (merge ignoringCompare docX docZ) docAA) =
     [charY, charXfar]"
proof -
  have u: "uniqueKeys docX" "uniqueKeys docZ" "uniqueKeys docAA"
    by (simp_all add: uniqueKeys_def docX_def docZ_def docAA_def)
  have s3: "sitesSeparated ignoringCompare [docX, docZ, docAA]"
    by (simp add: sitesSeparated_def separated_def ignoringCompare_def docX_def docZ_def
        docAA_def charXfar_def charX_def charY_def posQ_def posA2_def)
  have s2: "sitesSeparated ignoringCompare [docX, docZ]"
    by (simp add: sitesSeparated_def separated_def ignoringCompare_def docX_def docZ_def
        charXfar_def charX_def posQ_def)
  have o: "onePerPosition docX docZ"
    by (simp add: onePerPosition_def docX_def docZ_def charXfar_def charX_def posQ_def)
  have m: "characters (merge ignoringCompare docX docZ) = [(''x'', charXfar)]"
    by (simp add: merge_def mergeStep_def mapHas_def mapGet_def docX_def docZ_def charXfar_def
        charX_def posQ_def comparePositions_def)
  have g: "getText ignoringCompare (merge ignoringCompare docX docZ) = [charXfar]"
    by (simp add: getText_def arraySort_def m charXfar_def charX_def)
  have "characters (merge ignoringCompare (merge ignoringCompare docX docZ) docAA) =
      fold (mergeStep ignoringCompare) (characters docAA)
        (characters (merge ignoringCompare docX docZ))"
    by (simp add: merge_def)
  also have "\<dots> = fold (mergeStep ignoringCompare) [(''x'', charX), (''y'', charY)]
      [(''x'', charXfar)]"
    by (simp add: m docAA_def)
  also have "\<dots> = [(''x'', charXfar), (''y'', charY)]"
    by (simp add: mergeStep_def mapHas_def mapGet_def charXfar_def charX_def charY_def
        posQ_def posA2_def comparePositions_def)
  finally have m3: "characters (merge ignoringCompare (merge ignoringCompare docX docZ) docAA) =
      [(''x'', charXfar), (''y'', charY)]" .
  have g3: "getText ignoringCompare (merge ignoringCompare (merge ignoringCompare docX docZ) docAA) =
      [charY, charXfar]"
    by (simp add: getText_def arraySort_def m3 byPosition_def comparePositions_def charXfar_def
        charX_def charY_def posQ_def posA2_def)
  note t = merge_semilattice [OF u, of ignoringCompare]
  from t consistent_ignoringCompare s2 o
  have c: "getText ignoringCompare (merge ignoringCompare docX docZ) =
      getText ignoringCompare (merge ignoringCompare docZ docX)" by blast
  from t consistent_ignoringCompare s3
  have a: "merge ignoringCompare (merge ignoringCompare docX docZ) docAA =
      merge ignoringCompare docX (merge ignoringCompare docZ docAA)" by blast
  from t have i: "merge ignoringCompare docX docX = docX" by blast
  from consistent_ignoringCompare u s3 s2 o a i c g g3 show ?thesis by blast
qed

end
